theory Spec2Isabelle
  imports Complex_Main "HOL-Library.Product_Lexorder"
begin

section \<open>Errors\<close>

text \<open>
  Every exception the modelled code can raise is a value.  The names follow the
  specification's taxonomy where it has one: \<open>InvalidPermutation\<close> is the
  \<^verbatim>\<open>AssertionError\<close> of \<^verbatim>\<open>validate_permutation\<close>, \<open>ModulusMismatch\<close> the
  \<^verbatim>\<open>ValueError('the moduli must be equal')\<close>, \<open>NotInvertible\<close> the
  \<^verbatim>\<open>ValueError\<close> of the multiplicative \<^verbatim>\<open>__invert__\<close>.  The others are the
  interpreter's own: a missing dictionary key, a call with the wrong number of
  arguments, a modulus of zero, a quotient too large for a float, and the
  \<^verbatim>\<open>ValueError\<close> of \<^verbatim>\<open>sympy.totient\<close> on an argument below 1.
\<close>

datatype error =
    InvalidPermutation
  | ModulusMismatch
  | NotInvertible
  | KeyError
  | TypeError
  | ZeroDivisionError
  | OverflowError
  | TotientDomainError

section \<open>Dictionaries\<close>

text \<open>
  A Python \<^verbatim>\<open>dict\<close> keeps its items in insertion order and has no two items with
  the same key.  It is an association list; the well-formed ones have distinct keys.
  Keys and values are integers.
\<close>

type_synonym dict = "(int \<times> int) list"

definition wf_dict :: "dict \<Rightarrow> bool" where
  "wf_dict d = distinct (map fst d)"

definition dict_keys :: "dict \<Rightarrow> int list" where
  "dict_keys d = map fst d"

definition dict_values :: "dict \<Rightarrow> int list" where
  "dict_values d = map snd d"

text \<open>\<^verbatim>\<open>d[k]\<close>: a missing key raises.\<close>

definition dict_get :: "dict \<Rightarrow> int \<Rightarrow> error + int" where
  "dict_get d k = (case map_of d k of None \<Rightarrow> Inl KeyError | Some v \<Rightarrow> Inr v)"

text \<open>\<^verbatim>\<open>d[k] = v\<close>: an existing key keeps its position, a new one goes last.\<close>

fun dict_set :: "dict \<Rightarrow> int \<Rightarrow> int \<Rightarrow> dict" where
  "dict_set [] k v = [(k, v)]"
| "dict_set ((k', v') # d) k v =
     (if k' = k then (k', v) # d else (k', v') # dict_set d k v)"

text \<open>A dictionary display or comprehension: the items are stored one by one.\<close>

definition dict_of_items :: "(int \<times> int) list \<Rightarrow> dict" where
  "dict_of_items xs = foldl (\<lambda>d (k, v). dict_set d k v) [] xs"

text \<open>\<^verbatim>\<open>d == e\<close>: the same number of items, and every item of \<open>d\<close> is in \<open>e\<close>.\<close>

definition dict_eq :: "dict \<Rightarrow> dict \<Rightarrow> bool" where
  "dict_eq d e = (length d = length e \<and> list_all (\<lambda>(k, v). map_of e k = Some v) d)"

text \<open>\<^verbatim>\<open>range(1, n + 1)\<close>.\<close>

definition range1 :: "nat \<Rightarrow> int list" where
  "range1 n = [1 .. int n]"

text \<open>\<^verbatim>\<open>{i: i for i in range(1, n + 1)}\<close>.\<close>

definition identity_dict :: "nat \<Rightarrow> dict" where
  "identity_dict n = dict_of_items (map (\<lambda>i. (i, i)) (range1 n))"

section \<open>Permutation\<close>

text \<open>
  The fields \<^verbatim>\<open>_cycle_decomposition\<close>, \<^verbatim>\<open>_order\<close> and \<^verbatim>\<open>_sign\<close> only cache
  what \<^verbatim>\<open>get_cycle_decomposition\<close>, \<^verbatim>\<open>get_order\<close> and the determinant compute;
  the model keeps the two fields that carry data.
\<close>

record Permutation =
  permutation :: dict
  num_letters :: nat

text \<open>
  \<^verbatim>\<open>__init__\<close> stores the dictionary and its length.  No statement of it raises:
  the result is always \<open>Inr\<close>.
\<close>

definition Permutation_init :: "dict \<Rightarrow> error + Permutation" where
  "Permutation_init d = Inr \<lparr>permutation = d, num_letters = length d\<rparr>"

text \<open>
  \<^verbatim>\<open>validate_permutation\<close>, a static method no other method calls: the items are
  sorted, then the keys must be the list \<open>1, \<dots>, n\<close> and the values the set
  \<open>{1, \<dots>, n}\<close>.  It returns the sorted dictionary.
\<close>

definition validate_permutation :: "dict \<Rightarrow> error + dict" where
  "validate_permutation d =
     (let p = dict_of_items (sort d) in
      if dict_keys p \<noteq> map (\<lambda>i. int i + 1) [0 ..< length p] then Inl InvalidPermutation
      else if set (dict_values p) \<noteq> set (map (\<lambda>i. int i + 1) [0 ..< length p])
        then Inl InvalidPermutation
      else Inr p)"

definition Permutation_eq :: "Permutation \<Rightarrow> Permutation \<Rightarrow> bool" where
  "Permutation_eq a b = dict_eq (permutation a) (permutation b)"

text \<open>
  A call \<^verbatim>\<open>self.__eq__(...)\<close> of the bound method with the given positional
  arguments: the method takes exactly one besides \<^verbatim>\<open>self\<close>.
\<close>

definition Permutation_eq_call :: "Permutation \<Rightarrow> Permutation list \<Rightarrow> error + bool" where
  "Permutation_eq_call self args =
     (case args of [other] \<Rightarrow> Inr (Permutation_eq self other) | _ \<Rightarrow> Inl TypeError)"

text \<open>\<^verbatim>\<open>~b\<close> of a Boolean is the integer \<open>-b - 1\<close>.\<close>

definition py_invert_bool :: "bool \<Rightarrow> int" where
  "py_invert_bool b = (if b then - 2 else - 1)"

text \<open>\<^verbatim>\<open>__ne__\<close>: \<^verbatim>\<open>return ~self.__eq__(self, other)\<close>.\<close>

definition Permutation_ne :: "Permutation \<Rightarrow> Permutation \<Rightarrow> error + int" where
  "Permutation_ne self other =
     (case Permutation_eq_call self [self, other] of
        Inl e \<Rightarrow> Inl e
      | Inr b \<Rightarrow> Inr (py_invert_bool b))"

text \<open>
  \<^verbatim>\<open>__mul__\<close>: the comprehension looks up \<^verbatim>\<open>other.permutation[i]\<close>, then
  \<^verbatim>\<open>self.permutation\<close> at that value, for \<open>i = 1, \<dots>, self.num_letters\<close>; the
  first failing lookup raises.
\<close>

fun mul_items :: "dict \<Rightarrow> dict \<Rightarrow> int list \<Rightarrow> error + (int \<times> int) list" where
  "mul_items a b [] = Inr []"
| "mul_items a b (i # is) =
     (case dict_get b i of
        Inl e \<Rightarrow> Inl e
      | Inr j \<Rightarrow>
          (case dict_get a j of
             Inl e \<Rightarrow> Inl e
           | Inr v \<Rightarrow>
               (case mul_items a b is of
                  Inl e \<Rightarrow> Inl e
                | Inr xs \<Rightarrow> Inr ((i, v) # xs))))"

definition Permutation_mul :: "Permutation \<Rightarrow> Permutation \<Rightarrow> error + Permutation" where
  "Permutation_mul self other =
     (case mul_items (permutation self) (permutation other) (range1 (num_letters self)) of
        Inl e \<Rightarrow> Inl e
      | Inr xs \<Rightarrow> Permutation_init (dict_of_items xs))"

text \<open>\<^verbatim>\<open>__invert__\<close>: \<^verbatim>\<open>{self.permutation[k]: k for k in self.permutation.keys()}\<close>.\<close>

definition Permutation_invert :: "Permutation \<Rightarrow> error + Permutation" where
  "Permutation_invert self =
     Permutation_init (dict_of_items (map (\<lambda>(k, v). (v, k)) (permutation self)))"

text \<open>
  \<^verbatim>\<open>reduce(lambda x, y: x * y, xs)\<close> without an initial value: the empty list
  raises, otherwise the products are taken from the left.
\<close>

fun reduce_from :: "Permutation \<Rightarrow> Permutation list \<Rightarrow> error + Permutation" where
  "reduce_from acc [] = Inr acc"
| "reduce_from acc (y # ys) =
     (case Permutation_mul acc y of Inl e \<Rightarrow> Inl e | Inr z \<Rightarrow> reduce_from z ys)"

definition reduce_mul :: "Permutation list \<Rightarrow> error + Permutation" where
  "reduce_mul xs = (case xs of [] \<Rightarrow> Inl TypeError | x # ys \<Rightarrow> reduce_from x ys)"

definition Permutation_pow :: "Permutation \<Rightarrow> int \<Rightarrow> error + Permutation" where
  "Permutation_pow self N =
     (if N = 0 then Permutation_init (identity_dict (num_letters self))
      else if N > 0 then reduce_mul (replicate (nat N) self)
      else (case Permutation_invert self of
              Inl e \<Rightarrow> Inl e
            | Inr q \<Rightarrow> reduce_mul (replicate (nat \<bar>N\<bar>) q)))"

definition Permutation_is_identity :: "Permutation \<Rightarrow> bool" where
  "Permutation_is_identity self =
     dict_eq (permutation self) (identity_dict (num_letters self))"

text \<open>
  \<^verbatim>\<open>find_cycle_dict\<close>.  The \<^verbatim>\<open>while\<close> loop follows the images of \<open>start\<close>
  until one of them is \<open>start\<close> again; on a dictionary that is no bijection it can
  run forever, which is the value \<open>None\<close>.  The loop returns the last key and
  the cycle found so far; the statement after the loop stores the last item.
\<close>

partial_function (option) find_cycle_loop ::
  "dict \<Rightarrow> int \<Rightarrow> int \<Rightarrow> dict \<Rightarrow> (error + int \<times> dict) option" where
  "find_cycle_loop perm start current_key cycle =
     (case dict_get perm current_key of
        Inl e \<Rightarrow> Some (Inl e)
      | Inr v \<Rightarrow>
          if v \<noteq> start then find_cycle_loop perm start v (dict_set cycle current_key v)
          else Some (Inr (current_key, cycle)))"

definition find_cycle_dict :: "Permutation \<Rightarrow> int \<Rightarrow> (error + dict) option" where
  "find_cycle_dict self start =
     (case find_cycle_loop (permutation self) start start [] of
        None \<Rightarrow> None
      | Some (Inl e) \<Rightarrow> Some (Inl e)
      | Some (Inr (current_key, cycle)) \<Rightarrow>
          (case dict_get (permutation self) current_key of
             Inl e \<Rightarrow> Some (Inl e)
           | Inr v \<Rightarrow> Some (Inr (dict_set cycle current_key v))))"

subsection \<open>Sets and strings\<close>

text \<open>
  A Python \<^verbatim>\<open>set\<close> of integers is the list of its elements.  Membership, emptiness
  and difference do not depend on the order of that list.  The order in which a
  \<^verbatim>\<open>for\<close> loop visits a set is the interpreter's: the functions below take it as
  a parameter \<open>it\<close>, from the elements of a set to the same elements in iteration
  order.  CPython visits the set \<open>{1, \<dots>, n}\<close> in ascending order (an integer is its
  own hash, and the table has more than \<open>n\<close> slots), which is \<open>ascending\<close>.
\<close>

definition set_iteration :: "(int list \<Rightarrow> int list) \<Rightarrow> bool" where
  "set_iteration it = (\<forall>xs. set (it xs) = set xs \<and> distinct (it xs))"

definition ascending :: "int list \<Rightarrow> int list" where
  "ascending xs = sort (remdups xs)"

definition set_difference :: "int list \<Rightarrow> int list \<Rightarrow> int list" where
  "set_difference xs ys = filter (\<lambda>x. x \<notin> set ys) xs"

text \<open>\<^verbatim>\<open>str(i)\<close> of an integer, in decimal.\<close>

fun str_nat :: "nat \<Rightarrow> string" where
  "str_nat n =
     (if n < 10 then [''0123456789'' ! n]
      else str_nat (n div 10) @ [''0123456789'' ! (n mod 10)])"

declare str_nat.simps [simp del]

definition str_int :: "int \<Rightarrow> string" where
  "str_int i = (if i < 0 then ''-'' @ str_nat (nat (- i)) else str_nat (nat i))"

text \<open>\<^verbatim>\<open>sep.join(xs)\<close>.\<close>

fun str_join :: "string \<Rightarrow> string list \<Rightarrow> string" where
  "str_join sep [] = []"
| "str_join sep [x] = x"
| "str_join sep (x # y # ys) = x @ sep @ str_join sep (y # ys)"

text \<open>\<^verbatim>\<open>"(" + " ".join([str(i) for i in cycle.keys()]) + ")"\<close>.\<close>

definition cycle_string :: "dict \<Rightarrow> string" where
  "cycle_string cycle = ''('' @ str_join '' '' (map str_int (dict_keys cycle)) @ '')''"

subsection \<open>Cycle notation\<close>

text \<open>
  The body of \<^verbatim>\<open>for k in key_set\<close> in \<^verbatim>\<open>get_cycle_notation\<close>, on the keys in
  iteration order, with the state \<open>(updated_key_set, cycle_list)\<close>.
\<close>

fun notation_for ::
  "Permutation \<Rightarrow> int list \<Rightarrow> int list \<times> string list \<Rightarrow>
     (error + int list \<times> string list) option" where
  "notation_for self [] st = Some (Inr st)"
| "notation_for self (k # ks) (updated_key_set, cycle_list) =
     (if k \<in> set updated_key_set then
        (case find_cycle_dict self k of
           None \<Rightarrow> None
         | Some (Inl e) \<Rightarrow> Some (Inl e)
         | Some (Inr cycle) \<Rightarrow>
             notation_for self ks
               (set_difference updated_key_set (dict_keys cycle),
                if length cycle > 1 then cycle_list @ [cycle_string cycle] else cycle_list))
      else notation_for self ks (updated_key_set, cycle_list))"

partial_function (option) notation_while ::
  "Permutation \<Rightarrow> int list \<Rightarrow> int list \<times> string list \<Rightarrow> (error + string list) option" where
  "notation_while self key_set st =
     (if length (fst st) > 0 then
        Option.bind (notation_for self key_set st)
          (\<lambda>r. case r of Inl e \<Rightarrow> Some (Inl e) | Inr st' \<Rightarrow> notation_while self key_set st')
      else Some (Inr (snd st)))"

definition get_cycle_notation ::
  "(int list \<Rightarrow> int list) \<Rightarrow> Permutation \<Rightarrow> (error + string) option" where
  "get_cycle_notation it self =
     (if Permutation_is_identity self then Some (Inr ''1'')
      else
        (case notation_while self (it (dict_keys (permutation self)))
                (dict_keys (permutation self), []) of
           None \<Rightarrow> None
         | Some (Inl e) \<Rightarrow> Some (Inl e)
         | Some (Inr cycle_list) \<Rightarrow> Some (Inr (concat (rev cycle_list)))))"

subsection \<open>Cycle decomposition\<close>

text \<open>
  \<^verbatim>\<open>for i in set(self.permutation.keys()) - set(cycle.keys()): cycle[i] = i\<close>.
\<close>

definition fill_fixed :: "(int list \<Rightarrow> int list) \<Rightarrow> dict \<Rightarrow> dict \<Rightarrow> dict" where
  "fill_fixed it perm cycle =
     fold (\<lambda>i c. dict_set c i i) (it (set_difference (dict_keys perm) (dict_keys cycle))) cycle"

fun decomposition_for ::
  "(int list \<Rightarrow> int list) \<Rightarrow> Permutation \<Rightarrow> int list \<Rightarrow> int list \<times> Permutation list \<Rightarrow>
     (error + int list \<times> Permutation list) option" where
  "decomposition_for it self [] st = Some (Inr st)"
| "decomposition_for it self (k # ks) (updated_key_set, cycle_list) =
     (if k \<in> set updated_key_set then
        (case find_cycle_dict self k of
           None \<Rightarrow> None
         | Some (Inl e) \<Rightarrow> Some (Inl e)
         | Some (Inr cycle) \<Rightarrow>
             (if length cycle > 1 then
                (case Permutation_init (fill_fixed it (permutation self) cycle) of
                   Inl e \<Rightarrow> Some (Inl e)
                 | Inr c \<Rightarrow>
                     decomposition_for it self ks
                       (set_difference updated_key_set (dict_keys cycle), cycle_list @ [c]))
              else
                decomposition_for it self ks
                  (set_difference updated_key_set (dict_keys cycle), cycle_list)))
      else decomposition_for it self ks (updated_key_set, cycle_list))"

partial_function (option) decomposition_while ::
  "(int list \<Rightarrow> int list) \<Rightarrow> Permutation \<Rightarrow> int list \<Rightarrow> int list \<times> Permutation list \<Rightarrow>
     (error + Permutation list) option" where
  "decomposition_while it self key_set st =
     (if length (fst st) > 0 then
        Option.bind (decomposition_for it self key_set st)
          (\<lambda>r. case r of
                 Inl e \<Rightarrow> Some (Inl e)
               | Inr st' \<Rightarrow> decomposition_while it self key_set st')
      else Some (Inr (snd st)))"

definition get_cycle_decomposition ::
  "(int list \<Rightarrow> int list) \<Rightarrow> Permutation \<Rightarrow> (error + Permutation list) option" where
  "get_cycle_decomposition it self =
     decomposition_while it self (it (dict_keys (permutation self)))
       (dict_keys (permutation self), [])"

subsection \<open>Order\<close>

text \<open>
  \<^verbatim>\<open>get_order\<close>: multiply by \<open>self\<close> until the product is the identity, counting.
\<close>

partial_function (option) order_loop ::
  "Permutation \<Rightarrow> Permutation \<Rightarrow> int \<Rightarrow> (error + int) option" where
  "order_loop self product count =
     (if \<not> Permutation_is_identity product then
        (case Permutation_mul product self of
           Inl e \<Rightarrow> Some (Inl e)
         | Inr product' \<Rightarrow> order_loop self product' (count + 1))
      else Some (Inr count))"

definition Permutation_get_order :: "Permutation \<Rightarrow> (error + int) option" where
  "Permutation_get_order self = order_loop self self 1"

section \<open>Residue classes\<close>

text \<open>\<^verbatim>\<open>a % n\<close>: a modulus of zero raises; otherwise the result has the sign of \<open>n\<close>.\<close>

definition py_mod :: "int \<Rightarrow> int \<Rightarrow> error + int" where
  "py_mod a n = (if n = 0 then Inl ZeroDivisionError else Inr (a mod n))"

text \<open>
  \<^verbatim>\<open>int(a / b)\<close> where \<open>b\<close> divides \<open>a\<close>, as in \<^verbatim>\<open>get_order\<close>, whose divisor is a
  greatest common divisor of the dividend.  The true division of two integers is the
  double nearest to their exact quotient (ties to even), and \<^verbatim>\<open>OverflowError\<close> when
  that is beyond the largest double; \<^verbatim>\<open>int\<close> of an integral double is exact.
  \<open>double_shift a\<close> is the number of low bits a 53-bit significand drops from \<open>a\<close>.
\<close>

fun double_shift :: "nat \<Rightarrow> nat" where
  "double_shift a = (if a < 2 ^ 53 then 0 else Suc (double_shift (a div 2)))"

declare double_shift.simps [simp del]

definition round_to_double :: "int \<Rightarrow> error + int" where
  "round_to_double q =
     (let a = nat \<bar>q\<bar>;
          e = double_shift a;
          m = a div 2 ^ e;
          r = a mod 2 ^ e;
          m' = (if 2 * r > 2 ^ e \<or> (2 * r = 2 ^ e \<and> odd m) then m + 1 else m)
      in if m' * 2 ^ e \<ge> 2 ^ 1024 then Inl OverflowError
         else Inr (sgn q * int (m' * 2 ^ e)))"

definition int_truediv :: "int \<Rightarrow> int \<Rightarrow> error + int" where
  "int_truediv a b = (if b = 0 then Inl ZeroDivisionError else round_to_double (a div b))"

text \<open>
  One record for the three classes: \<^verbatim>\<open>ResidueClass.get_order\<close> returns \<^verbatim>\<open>None\<close>,
  the two subclasses return an integer.
\<close>

record ResidueClass =
  modulus :: int
  residue :: int
  order :: "int option"

text \<open>
  \<^verbatim>\<open>ResidueClass.__init__\<close>, which the subclasses call unchanged: the residue is
  reduced, then \<^verbatim>\<open>self.get_order()\<close> of the object's own class is stored.
\<close>

definition ResidueClass_init_with ::
  "(int \<Rightarrow> int \<Rightarrow> error + int option) \<Rightarrow> int \<Rightarrow> int \<Rightarrow> error + ResidueClass" where
  "ResidueClass_init_with get_order r n =
     (case py_mod r n of
        Inl e \<Rightarrow> Inl e
      | Inr res \<Rightarrow>
          (case get_order res n of
             Inl e \<Rightarrow> Inl e
           | Inr ord \<Rightarrow> Inr \<lparr>modulus = n, residue = res, order = ord\<rparr>))"

definition ResidueClass_get_order :: "int \<Rightarrow> int \<Rightarrow> error + int option" where
  "ResidueClass_get_order res n = Inr None"

text \<open>\<^verbatim>\<open>int(self.modulus / math.gcd(self.residue, self.modulus))\<close>, in both subclasses.\<close>

definition AdditiveResidueClass_get_order :: "int \<Rightarrow> int \<Rightarrow> error + int option" where
  "AdditiveResidueClass_get_order res n =
     (case int_truediv n (gcd res n) of Inl e \<Rightarrow> Inl e | Inr k \<Rightarrow> Inr (Some k))"

definition MultiplicativeResidueClass_get_order :: "int \<Rightarrow> int \<Rightarrow> error + int option" where
  "MultiplicativeResidueClass_get_order res n =
     (case int_truediv n (gcd res n) of Inl e \<Rightarrow> Inl e | Inr k \<Rightarrow> Inr (Some k))"

definition ResidueClass_init :: "int \<Rightarrow> int \<Rightarrow> error + ResidueClass" where
  "ResidueClass_init = ResidueClass_init_with ResidueClass_get_order"

definition AdditiveResidueClass_init :: "int \<Rightarrow> int \<Rightarrow> error + ResidueClass" where
  "AdditiveResidueClass_init = ResidueClass_init_with AdditiveResidueClass_get_order"

definition MultiplicativeResidueClass_init :: "int \<Rightarrow> int \<Rightarrow> error + ResidueClass" where
  "MultiplicativeResidueClass_init = ResidueClass_init_with MultiplicativeResidueClass_get_order"

definition ResidueClass_eq :: "ResidueClass \<Rightarrow> ResidueClass \<Rightarrow> bool" where
  "ResidueClass_eq self other =
     (residue self = residue other \<and> modulus self = modulus other)"

definition ResidueClass_eq_call :: "ResidueClass \<Rightarrow> ResidueClass list \<Rightarrow> error + bool" where
  "ResidueClass_eq_call self args =
     (case args of [other] \<Rightarrow> Inr (ResidueClass_eq self other) | _ \<Rightarrow> Inl TypeError)"

text \<open>\<^verbatim>\<open>ResidueClass.__ne__\<close>, inherited by both subclasses.\<close>

definition ResidueClass_ne :: "ResidueClass \<Rightarrow> ResidueClass \<Rightarrow> error + int" where
  "ResidueClass_ne self other =
     (case ResidueClass_eq_call self [self, other] of
        Inl e \<Rightarrow> Inl e
      | Inr b \<Rightarrow> Inr (py_invert_bool b))"

definition AdditiveResidueClass_is_identity :: "ResidueClass \<Rightarrow> bool" where
  "AdditiveResidueClass_is_identity self = (if residue self = 0 then True else False)"

definition MultiplicativeResidueClass_is_identity :: "ResidueClass \<Rightarrow> bool" where
  "MultiplicativeResidueClass_is_identity self = (if residue self = 1 then True else False)"

definition MultiplicativeResidueClass_mul ::
  "ResidueClass \<Rightarrow> ResidueClass \<Rightarrow> error + ResidueClass" where
  "MultiplicativeResidueClass_mul self other =
     (if modulus self \<noteq> modulus other then Inl ModulusMismatch
      else
        (case py_mod (residue self * residue other) (modulus self) of
           Inl e \<Rightarrow> Inl e
         | Inr r \<Rightarrow> MultiplicativeResidueClass_init r (modulus self)))"

text \<open>
  Modelled from the spec: \<^verbatim>\<open>sympy.totient\<close> is a library function outside the
  repository, Euler's totient function; it rejects an argument below 1.
\<close>

definition totient :: "int \<Rightarrow> error + int" where
  "totient n =
     (if n < 1 then Inl TotientDomainError
      else Inr (int (length (filter (\<lambda>k. coprime k n) [1 .. n]))))"

text \<open>
  \<^verbatim>\<open>MultiplicativeResidueClass.__invert__\<close>.  The exponent \<open>totient - 1\<close> is not
  negative, since the totient of a positive integer is at least 1.
\<close>

definition MultiplicativeResidueClass_invert :: "ResidueClass \<Rightarrow> error + ResidueClass" where
  "MultiplicativeResidueClass_invert self =
     (if gcd (residue self) (modulus self) \<noteq> 1 then Inl NotInvertible
      else
        (case totient (modulus self) of
           Inl e \<Rightarrow> Inl e
         | Inr t \<Rightarrow>
             MultiplicativeResidueClass_init (residue self ^ nat (t - 1)) (modulus self)))"

section \<open>Matrix\<close>

record Matrix =
  matrix :: "int list list"
  dimension :: nat
  characteristic :: int

text \<open>
  \<^verbatim>\<open>__init__(self, matrix, characteristic)\<close>: both arguments are required, so a call
  that leaves the second out raises.  The entries are reduced, and the dimension is
  the number of rows.
\<close>

definition Matrix_init :: "int list list \<Rightarrow> int option \<Rightarrow> error + Matrix" where
  "Matrix_init m c =
     (case c of
        None \<Rightarrow> Inl TypeError
      | Some p \<Rightarrow>
          if p = 0 then Inl ZeroDivisionError
          else Inr \<lparr>matrix = map (map (\<lambda>x. x mod p)) m, dimension = length m,
                    characteristic = p\<rparr>)"

text \<open>\<^verbatim>\<open>sympy.eye(n)\<close>.\<close>

definition eye :: "nat \<Rightarrow> int list list" where
  "eye n = map (\<lambda>i. map (\<lambda>j. if i = j then 1 else 0) [0 ..< n]) [0 ..< n]"

text \<open>
  The matrix product and the modular inverse are sympy's; \<^verbatim>\<open>__mul__\<close>,
  \<^verbatim>\<open>__invert__\<close> and \<^verbatim>\<open>__pow__\<close> take them as the parameters \<open>mat_mul\<close> and
  \<open>inv_mod\<close>.
\<close>

definition Matrix_mul ::
  "(int list list \<Rightarrow> int list list \<Rightarrow> error + int list list) \<Rightarrow>
     Matrix \<Rightarrow> Matrix \<Rightarrow> error + Matrix" where
  "Matrix_mul mat_mul self other =
     (case mat_mul (matrix self) (matrix other) of
        Inl e \<Rightarrow> Inl e
      | Inr m \<Rightarrow>
          if characteristic self = 0 then Inl ZeroDivisionError
          else Matrix_init (map (map (\<lambda>x. x mod characteristic self)) m)
                 (Some (characteristic self)))"

definition Matrix_invert ::
  "(int list list \<Rightarrow> int \<Rightarrow> error + int list list) \<Rightarrow> Matrix \<Rightarrow> error + Matrix" where
  "Matrix_invert inv_mod self =
     (case inv_mod (matrix self) (characteristic self) of
        Inl e \<Rightarrow> Inl e
      | Inr m \<Rightarrow> Matrix_init m (Some (characteristic self)))"

fun Matrix_reduce_from ::
  "(int list list \<Rightarrow> int list list \<Rightarrow> error + int list list) \<Rightarrow>
     Matrix \<Rightarrow> Matrix list \<Rightarrow> error + Matrix" where
  "Matrix_reduce_from mat_mul acc [] = Inr acc"
| "Matrix_reduce_from mat_mul acc (y # ys) =
     (case Matrix_mul mat_mul acc y of
        Inl e \<Rightarrow> Inl e
      | Inr z \<Rightarrow> Matrix_reduce_from mat_mul z ys)"

definition Matrix_reduce ::
  "(int list list \<Rightarrow> int list list \<Rightarrow> error + int list list) \<Rightarrow>
     Matrix list \<Rightarrow> error + Matrix" where
  "Matrix_reduce mat_mul xs =
     (case xs of [] \<Rightarrow> Inl TypeError | x # ys \<Rightarrow> Matrix_reduce_from mat_mul x ys)"

text \<open>\<^verbatim>\<open>__pow__\<close>: for \<open>N = 0\<close> it calls \<^verbatim>\<open>Matrix(sympy.eye(self.dimension))\<close>.\<close>

definition Matrix_pow ::
  "(int list list \<Rightarrow> int list list \<Rightarrow> error + int list list) \<Rightarrow>
     (int list list \<Rightarrow> int \<Rightarrow> error + int list list) \<Rightarrow> Matrix \<Rightarrow> int \<Rightarrow> error + Matrix" where
  "Matrix_pow mat_mul inv_mod self N =
     (if N = 0 then Matrix_init (eye (dimension self)) None
      else if N > 0 then Matrix_reduce mat_mul (replicate (nat N) self)
      else
        (case Matrix_invert inv_mod self of
           Inl e \<Rightarrow> Inl e
         | Inr q \<Rightarrow> Matrix_reduce mat_mul (replicate (nat \<bar>N\<bar>) q)))"

definition Matrix_is_identity :: "Matrix \<Rightarrow> bool" where
  "Matrix_is_identity self = (matrix self = eye (dimension self))"

section \<open>Statistical invariants\<close>

text \<open>
  Modelled from the spec: the class \<^verbatim>\<open>Group\<close> is not among the source files.  It is
  a finite collection of elements that can be iterated, and its \<^verbatim>\<open>order\<close> is the
  number of its elements.  The \<^verbatim>\<open>order\<close> attribute of an element is the parameter
  \<open>element_order\<close>.
\<close>

record 'a Group =
  elements :: "'a list"

definition Group_order :: "'a Group \<Rightarrow> nat" where
  "Group_order G = length (elements G)"

text \<open>
  \<^verbatim>\<open>itertools.combinations_with_replacement(pool, 2)\<close>: the pairs of positions
  \<open>i \<le> j\<close>, in lexicographic order.
\<close>

fun combinations_with_replacement2 :: "'a list \<Rightarrow> ('a \<times> 'a) list" where
  "combinations_with_replacement2 [] = []"
| "combinations_with_replacement2 (x # xs) =
     map (\<lambda>y. (x, y)) (x # xs) @ combinations_with_replacement2 xs"

text \<open>\<^verbatim>\<open>math.comb(n, 2)\<close>.\<close>

definition comb2 :: "nat \<Rightarrow> nat" where
  "comb2 n = n choose 2"

text \<open>
  \<^verbatim>\<open>a / b\<close> of two integers, Python's true division: the result is a float, an
  IEEE double, and it is the double nearest to the exact quotient, ties going to the
  even significand.  A double is given here by the rational number it stands for.
  The doubles around a positive \<open>x\<close> with \<open>2 ^ l \<le> x < 2 ^ (l + 1)\<close> are the
  multiples of \<open>2 ^ e\<close> for \<open>e = l - 52\<close>, and of \<open>2 ^ - 1074\<close> below the normal
  range; a result of \<open>2 ^ 1024\<close> or more raises \<^verbatim>\<open>OverflowError\<close>.
  \<open>bit_length n\<close> is the number of binary digits of \<open>n\<close>, \<open>pow2 e\<close> the power of
  two with an integer exponent, \<open>round_half_even\<close> the nearest integer.
\<close>

function bit_length :: "int \<Rightarrow> int" where
  "bit_length n = (if n \<le> 0 then 0 else 1 + bit_length (n div 2))"
  by pat_completeness auto

termination
  by (relation "measure nat") auto

declare bit_length.simps [simp del]

definition pow2 :: "int \<Rightarrow> rat" where
  "pow2 e = (if 0 \<le> e then 2 ^ nat e else 1 / 2 ^ nat (- e))"

definition round_half_even :: "rat \<Rightarrow> int" where
  "round_half_even y =
     (let f = \<lfloor>y\<rfloor>; r = y - of_int f
      in if r < 1 / 2 then f else if 1 / 2 < r then f + 1 else if even f then f else f + 1)"

definition true_divide :: "int \<Rightarrow> int \<Rightarrow> error + rat" where
  "true_divide a b =
     (if b = 0 then Inl ZeroDivisionError
      else if a = 0 then Inr 0
      else
        (let x = \<bar>of_int a / of_int b\<bar>;
             d = bit_length \<bar>a\<bar> - bit_length \<bar>b\<bar>;
             l = (if pow2 d \<le> x then d else d - 1);
             e = max (l - 52) (- 1074);
             v = of_int (round_half_even (x / pow2 e)) * pow2 e
         in if 2 ^ 1024 \<le> v then Inl OverflowError
            else Inr (sgn (of_int a / of_int b) * v)))"

text \<open>
  \<^verbatim>\<open>equal_order_probability\<close>: the number of pairs is divided by the binomial
  coefficient with Python's true division, so the result is a float.
\<close>

definition equal_order_probability :: "('a \<Rightarrow> int) \<Rightarrow> 'a Group \<Rightarrow> error + rat" where
  "equal_order_probability element_order grp =
     (let order_pairs = combinations_with_replacement2 (elements grp);
          order_equal_count =
            length (filter (\<lambda>pair. element_order (fst pair) = element_order (snd pair))
                      order_pairs)
      in true_divide (int order_equal_count) (int (comb2 (Group_order grp + 1))))"

section \<open>Valid permutations\<close>

text \<open>
  The specification's notion of a permutation of degree \<open>n\<close>: a dictionary whose keys
  are exactly \<open>1, \<dots>, n\<close>, once each, and whose values are exactly \<open>1, \<dots>, n\<close>.
  \<open>apply_dict d\<close> is the function the dictionary stands for, the identity outside
  its keys.
\<close>

definition is_bijection :: "dict \<Rightarrow> bool" where
  "is_bijection d =
     (wf_dict d \<and> set (dict_keys d) = set (range1 (length d))
      \<and> set (dict_values d) = set (range1 (length d)))"

definition valid_permutation :: "Permutation \<Rightarrow> bool" where
  "valid_permutation p = (is_bijection (permutation p) \<and> num_letters p = length (permutation p))"

definition apply_dict :: "dict \<Rightarrow> int \<Rightarrow> int" where
  "apply_dict d i = (case map_of d i of None \<Rightarrow> i | Some v \<Rightarrow> v)"

section \<open>Cycles, as the specification describes them\<close>

text \<open>
  \<open>period d s\<close> is the least positive number of steps after which the images of
  \<open>s\<close> are back at \<open>s\<close>, \<open>orbit d s j\<close> the first \<open>j\<close> images, \<open>cycle_items\<close>
  the items of a dictionary restricted to a list of keys.  They serve the proofs.
\<close>

definition period :: "dict \<Rightarrow> int \<Rightarrow> nat" where
  "period d s = (LEAST m. 0 < m \<and> (apply_dict d ^^ m) s = s)"

definition orbit :: "dict \<Rightarrow> int \<Rightarrow> nat \<Rightarrow> int list" where
  "orbit d s j = map (\<lambda>i. (apply_dict d ^^ i) s) [0 ..< j]"

definition cycle_items :: "dict \<Rightarrow> int list \<Rightarrow> dict" where
  "cycle_items d xs = map (\<lambda>x. (x, apply_dict d x)) xs"

text \<open>
  The cycle of \<open>start\<close>, in traversal order: the successive images of \<open>start\<close>
  until the next one is \<open>start\<close> again.  A cycle of a dictionary has no more elements
  than the dictionary has items, which bounds the traversal.
\<close>

fun trace_cycle :: "dict \<Rightarrow> int \<Rightarrow> int \<Rightarrow> nat \<Rightarrow> int list" where
  "trace_cycle d start x 0 = [x]"
| "trace_cycle d start x (Suc fuel) =
     (if apply_dict d x = start then [x] else x # trace_cycle d start (apply_dict d x) fuel)"

definition cycle_of :: "dict \<Rightarrow> int \<Rightarrow> int list" where
  "cycle_of d s = trace_cycle d s s (length d)"

text \<open>
  The cycles in discovery order: the keys are visited in iteration order, and a key
  that no earlier cycle contains starts the next cycle.
\<close>

fun discover :: "dict \<Rightarrow> int list \<Rightarrow> int list \<Rightarrow> int list list" where
  "discover d [] seen = []"
| "discover d (k # ks) seen =
     (if k \<in> set seen then discover d ks seen
      else cycle_of d k # discover d ks (seen @ cycle_of d k))"

text \<open>
  The notation of a permutation that is not the identity: the cycles of length above
  one, each between parentheses with its elements separated by spaces, concatenated
  in reverse discovery order.
\<close>

definition cycle_text :: "int list \<Rightarrow> string" where
  "cycle_text c = ''('' @ str_join '' '' (map str_int c) @ '')''"

definition cycle_notation_spec :: "(int list \<Rightarrow> int list) \<Rightarrow> dict \<Rightarrow> string" where
  "cycle_notation_spec it d =
     concat (rev (map cycle_text
       (filter (\<lambda>c. length c > 1) (discover d (it (dict_keys d)) []))))"

text \<open>
  What the proofs about the cycle decomposition speak of: the permutation the code
  builds from a cycle, a dictionary that stands for a function on \<open>1, \<dots>, n\<close>, a
  list that is closed under the permutation, the function that follows the
  permutation on a cycle and fixes the rest, and the cycles of length above one in
  discovery order.
\<close>

definition cycle_perm :: "(int list \<Rightarrow> int list) \<Rightarrow> dict \<Rightarrow> int list \<Rightarrow> Permutation" where
  "cycle_perm it d c =
     \<lparr>permutation = fill_fixed it d (cycle_items d c),
      num_letters = length (fill_fixed it d (cycle_items d c))\<rparr>"

definition represents :: "nat \<Rightarrow> dict \<Rightarrow> (int \<Rightarrow> int) \<Rightarrow> bool" where
  "represents n d h =
     (wf_dict d \<and> set (dict_keys d) = {1 .. int n}
      \<and> (\<forall>i. 1 \<le> i \<and> i \<le> int n \<longrightarrow> map_of d i = Some (h i) \<and> 1 \<le> h i \<and> h i \<le> int n))"

definition cycle_ok :: "nat \<Rightarrow> dict \<Rightarrow> int list \<Rightarrow> bool" where
  "cycle_ok n d c =
     (distinct c \<and> (\<forall>x \<in> set c. 1 \<le> x \<and> x \<le> int n \<and> apply_dict d x \<in> set c))"

definition cycle_fun :: "dict \<Rightarrow> int list \<Rightarrow> int \<Rightarrow> int" where
  "cycle_fun d c x = (if x \<in> set c then apply_dict d x else x)"

definition nontrivial_cycles :: "(int list \<Rightarrow> int list) \<Rightarrow> dict \<Rightarrow> int list list" where
  "nontrivial_cycles it d = filter (\<lambda>c. length c > 1) (discover d (it (dict_keys d)) [])"

text \<open>
  The unordered pairs with repetition \<open>{x, y}\<close> of elements of equal order; a pair
  with \<open>x = y\<close> is the singleton \<open>{x}\<close>.
\<close>

definition equal_order_pairs :: "('a \<Rightarrow> int) \<Rightarrow> 'a list \<Rightarrow> 'a set set" where
  "equal_order_pairs element_order xs =
     (\<lambda>(x, y). {x, y}) `
       {(x, y). x \<in> set xs \<and> y \<in> set xs \<and> element_order x = element_order y}"

text \<open>
  The integers of \<open>1, \<dots>, n\<close> that are coprime to \<open>n\<close>; the totient counts them.
\<close>

definition totatives :: "int \<Rightarrow> int set" where
  "totatives n = {k \<in> {1 .. n}. coprime k n}"

section \<open>Inequality\<close>

text \<open>
  C10.  \<^verbatim>\<open>__ne__\<close> of \<^verbatim>\<open>Permutation\<close> and of \<^verbatim>\<open>ResidueClass\<close> (which the additive
  and the multiplicative class inherit) calls the bound \<^verbatim>\<open>__eq__\<close> with two
  arguments where it takes one: for every pair of operands the comparison raises
  \<^verbatim>\<open>TypeError\<close>, and the complement of the result is never computed.
\<close>

theorem ne_always_raises:
  "Permutation_ne a b = Inl TypeError \<and> ResidueClass_ne x y = Inl TypeError"
  by (simp add: Permutation_ne_def Permutation_eq_call_def ResidueClass_ne_def
      ResidueClass_eq_call_def)

section \<open>The zeroth power of a matrix\<close>

text \<open>
  C7.  The claim is that \<open>M ** 0\<close> is the identity matrix element of the dimension
  and characteristic of \<open>M\<close>.  The code calls the constructor without the
  characteristic, so for every matrix element, and whatever the matrix product and the
  modular inverse are, the zeroth power raises \<^verbatim>\<open>TypeError\<close>.
\<close>

theorem Matrix_pow_zero_raises:
  "Matrix_pow mat_mul inv_mod M 0 = Inl TypeError"
  by (simp add: Matrix_pow_def Matrix_init_def)

section \<open>The order of an identity\<close>

lemma round_to_double_small:
  assumes "\<bar>q\<bar> < 2 ^ 53"
  shows "round_to_double q = Inr q"
proof -
  have a: "nat \<bar>q\<bar> < 2 ^ 53"
    using assms by (simp add: nat_less_iff)
  have e: "double_shift (nat \<bar>q\<bar>) = 0"
    using a by (simp add: double_shift.simps)
  have "nat \<bar>q\<bar> < 2 ^ 1024"
    using a by (rule less_trans) simp
  then show ?thesis
    by (simp add: round_to_double_def e Let_def mult_sgn_abs)
qed

text \<open>
  C2.  The claim is that an element for which \<^verbatim>\<open>is_identity()\<close> holds has order 1,
  in particular the multiplicative residue 1.  The multiplicative class computes its
  order with the formula of the additive class: the residue 1 modulo 7 is the
  identity, and its order is 7.
\<close>

theorem multiplicative_identity_order_7:
  "MultiplicativeResidueClass_init 1 7 = Inr \<lparr>modulus = 7, residue = 1, order = Some 7\<rparr>
   \<and> MultiplicativeResidueClass_is_identity \<lparr>modulus = 7, residue = 1, order = Some 7\<rparr>"
  by (simp add: MultiplicativeResidueClass_init_def ResidueClass_init_with_def py_mod_def
      MultiplicativeResidueClass_get_order_def int_truediv_def round_to_double_small
      MultiplicativeResidueClass_is_identity_def)

subsection \<open>Identities whose order is 1\<close>

text \<open>
  The other two classes of C2 do give their identity the order 1: the loop of
  \<^verbatim>\<open>Permutation.get_order\<close> stops at once, and the additive formula divides a
  positive modulus by itself.  The multiplicative identity of a modulus between 2 and
  \<open>2 ^ 53\<close> has the modulus as its order.
\<close>

lemma Permutation_identity_order:
  "Permutation_is_identity p \<Longrightarrow> Permutation_get_order p = Some (Inr 1)"
  unfolding Permutation_get_order_def by (subst order_loop.simps) simp

lemma round_to_double_one: "round_to_double 1 = Inr 1"
  by (simp add: round_to_double_small)

lemma AdditiveResidueClass_identity_order:
  assumes "1 \<le> n" "AdditiveResidueClass_init r n = Inr x" "AdditiveResidueClass_is_identity x"
  shows "order x = Some 1"
proof -
  have n: "n \<noteq> 0" using assms(1) by simp
  have r: "residue x = r mod n"
    using assms(2) n
    by (auto simp: AdditiveResidueClass_init_def ResidueClass_init_with_def py_mod_def
        split: sum.splits)
  then have z: "r mod n = 0"
    using assms(3) by (simp add: AdditiveResidueClass_is_identity_def split: if_splits)
  have "n div gcd (r mod n) n = 1" using assms(1) z by simp
  then show ?thesis
    using assms(2) n z
    by (auto simp: AdditiveResidueClass_init_def ResidueClass_init_with_def py_mod_def
        AdditiveResidueClass_get_order_def int_truediv_def round_to_double_one
        split: sum.splits)
qed

lemma MultiplicativeResidueClass_identity_order:
  assumes "2 \<le> n" "n < 2 ^ 53"
  shows "MultiplicativeResidueClass_init 1 n = Inr \<lparr>modulus = n, residue = 1, order = Some n\<rparr>
         \<and> MultiplicativeResidueClass_is_identity \<lparr>modulus = n, residue = 1, order = Some n\<rparr>"
proof -
  have "round_to_double n = Inr n" by (rule round_to_double_small) (use assms in simp)
  then show ?thesis
    using assms(1)
    by (simp add: MultiplicativeResidueClass_init_def ResidueClass_init_with_def py_mod_def
        MultiplicativeResidueClass_get_order_def int_truediv_def
        MultiplicativeResidueClass_is_identity_def)
qed

section \<open>Dictionaries and composition\<close>

lemma set_range1: "set (range1 n) = {1 .. int n}"
  by (simp add: range1_def)

lemma distinct_range1: "distinct (range1 n)"
  by (simp add: range1_def)

lemma length_range1: "length (range1 n) = n"
  by (simp add: range1_def)

lemma dict_set_new: "k \<notin> set (map fst d) \<Longrightarrow> dict_set d k v = d @ [(k, v)]"
  by (induction d) auto

lemma foldl_dict_set_distinct:
  "distinct (map fst (acc @ xs)) \<Longrightarrow> foldl (\<lambda>d (k, v). dict_set d k v) acc xs = acc @ xs"
proof (induction xs arbitrary: acc)
  case Nil
  then show ?case by simp
next
  case (Cons x xs)
  obtain k v where x: "x = (k, v)" by (cases x)
  have new: "k \<notin> set (map fst acc)" using Cons.prems x by auto
  have "distinct (map fst ((acc @ [(k, v)]) @ xs))" using Cons.prems x by simp
  from Cons.IH [OF this] show ?case
    using new x by (simp add: dict_set_new)
qed

lemma dict_of_items_distinct: "distinct (map fst xs) \<Longrightarrow> dict_of_items xs = xs"
  using foldl_dict_set_distinct [of "[]" xs] by (simp add: dict_of_items_def)

lemma identity_dict_eq: "identity_dict n = map (\<lambda>i. (i, i)) (range1 n)"
  by (simp add: identity_dict_def dict_of_items_distinct comp_def distinct_range1)

lemma dict_eq_refl: "distinct (map fst d) \<Longrightarrow> dict_eq d d"
  by (auto simp: dict_eq_def list_all_iff)

lemma dict_get_Some: "map_of d k = Some v \<Longrightarrow> dict_get d k = Inr v"
  by (simp add: dict_get_def)

lemma mul_items_ok:
  "(\<And>i. i \<in> set is \<Longrightarrow> \<exists>j v. map_of b i = Some j \<and> map_of a j = Some v) \<Longrightarrow>
   mul_items a b is = Inr (map (\<lambda>i. (i, apply_dict a (apply_dict b i))) is)"
proof (induction "is")
  case Nil
  then show ?case by simp
next
  case (Cons i "is")
  obtain j v where jv: "map_of b i = Some j" "map_of a j = Some v"
    using Cons.prems [of i] by auto
  have "mul_items a b is = Inr (map (\<lambda>i. (i, apply_dict a (apply_dict b i))) is)"
    using Cons.IH Cons.prems by simp
  then show ?case
    using jv by (simp add: dict_get_def apply_dict_def)
qed

lemma bijection_lookup:
  assumes "is_bijection d" "1 \<le> i" "i \<le> int (length d)"
  shows "\<exists>v. map_of d i = Some v \<and> 1 \<le> v \<and> v \<le> int (length d)"
proof -
  have "i \<in> set (map fst d)"
    using assms by (simp add: is_bijection_def dict_keys_def set_range1)
  then obtain v where v: "(i, v) \<in> set d" by auto
  have d: "distinct (map fst d)" using assms by (simp add: is_bijection_def wf_dict_def)
  have m: "map_of d i = Some v" using v d by simp
  have "v \<in> set (dict_values d)" using v by (force simp: dict_values_def)
  then have "v \<in> {1 .. int (length d)}"
    using assms by (simp add: is_bijection_def set_range1)
  then show ?thesis using m by simp
qed

text \<open>
  C3.  For valid permutations \<open>a\<close> and \<open>b\<close> of the same degree \<open>n\<close>, the product
  \<open>a * b\<close> is returned, has degree \<open>n\<close> and the keys \<open>1, \<dots>, n\<close>, and maps every
  \<open>i\<close> of \<open>1, \<dots>, n\<close> to \<open>a[b[i]]\<close>: \<open>b\<close> is applied first.
\<close>

theorem Permutation_mul_composes:
  assumes "valid_permutation a" "valid_permutation b" "num_letters a = n" "num_letters b = n"
  shows "\<exists>c. Permutation_mul a b = Inr c \<and> num_letters c = n
           \<and> dict_keys (permutation c) = range1 n
           \<and> (\<forall>i. 1 \<le> i \<and> i \<le> int n \<longrightarrow>
                 (\<exists>j k. dict_get (permutation b) i = Inr j
                        \<and> dict_get (permutation a) j = Inr k
                        \<and> dict_get (permutation c) i = Inr k))"
proof -
  let ?A = "permutation a" and ?B = "permutation b"
  have la: "length ?A = n" and lb: "length ?B = n"
    using assms by (simp_all add: valid_permutation_def)
  have ba: "is_bijection ?A" and bb: "is_bijection ?B"
    using assms by (simp_all add: valid_permutation_def)
  have look: "\<exists>j v. map_of ?B i = Some j \<and> map_of ?A j = Some v" if "i \<in> set (range1 n)" for i
  proof -
    have i: "1 \<le> i" "i \<le> int n" using that by (simp_all add: set_range1)
    obtain j where j: "map_of ?B i = Some j" "1 \<le> j" "j \<le> int n"
      using bijection_lookup [OF bb] i lb by auto
    obtain v where "map_of ?A j = Some v"
      using bijection_lookup [OF ba] j la by auto
    then show ?thesis using j by auto
  qed
  let ?xs = "map (\<lambda>i. (i, apply_dict ?A (apply_dict ?B i))) (range1 n)"
  have items: "mul_items ?A ?B (range1 n) = Inr ?xs"
    using look by (rule mul_items_ok)
  have dk: "map fst ?xs = range1 n" by (simp add: comp_def)
  have dist: "distinct (map fst ?xs)" unfolding dk by (rule distinct_range1)
  let ?c = "\<lparr>permutation = ?xs, num_letters = n\<rparr>"
  have mul: "Permutation_mul a b = Inr ?c"
    using items assms(3)
    by (simp add: Permutation_mul_def Permutation_init_def dict_of_items_distinct [OF dist]
        length_range1)
  have pt: "\<exists>j k. dict_get ?B i = Inr j \<and> dict_get ?A j = Inr k \<and> dict_get ?xs i = Inr k"
    if i: "1 \<le> i \<and> i \<le> int n" for i
  proof -
    have mem: "i \<in> set (range1 n)" using i by (simp add: set_range1)
    obtain j v where jv: "map_of ?B i = Some j" "map_of ?A j = Some v"
      using look [OF mem] by auto
    have "map_of ?xs i = Some (apply_dict ?A (apply_dict ?B i))"
      using mem by (simp add: map_of_map_restrict restrict_map_def)
    then have "map_of ?xs i = Some v" using jv by (simp add: apply_dict_def)
    then show ?thesis using jv by (auto simp: dict_get_def)
  qed
  show ?thesis
    using mul pt dk by (intro exI [of _ ?c]) (simp add: dict_keys_def)
qed


lemma fst_le_of_le: "(x :: int \<times> int) \<le> y \<Longrightarrow> fst x \<le> fst y"
  by (cases x, cases y) (auto simp: less_eq_prod_def)

lemma sorted_map_fst: "sorted (xs :: (int \<times> int) list) \<Longrightarrow> sorted (map fst xs)"
  by (induction xs) (auto simp: fst_le_of_le)

lemma range1_as_map: "map (\<lambda>i. int i + 1) [0 ..< n] = range1 n"
proof (rule sorted_distinct_set_unique)
  show "sorted (map (\<lambda>i. int i + 1) [0 ..< n])"
    by (rule sorted_map_mono) (auto simp: mono_on_def)
  show "distinct (map (\<lambda>i. int i + 1) [0 ..< n])"
    by (simp add: distinct_map inj_on_def)
  show "sorted (range1 n)" by (simp add: range1_def)
  show "distinct (range1 n)" by (rule distinct_range1)
  show "set (map (\<lambda>i. int i + 1) [0 ..< n]) = set (range1 n)"
  proof -
    have "(\<lambda>i. int i + 1) ` {0 ..< n} = {1 .. int n}"
    proof (rule set_eqI)
      fix x
      show "x \<in> (\<lambda>i. int i + 1) ` {0 ..< n} \<longleftrightarrow> x \<in> {1 .. int n}"
      proof
        assume "x \<in> (\<lambda>i. int i + 1) ` {0 ..< n}"
        then show "x \<in> {1 .. int n}" by auto
      next
        assume x: "x \<in> {1 .. int n}"
        then have "nat (x - 1) \<in> {0 ..< n}" and "x = int (nat (x - 1)) + 1" by auto
        then show "x \<in> (\<lambda>i. int i + 1) ` {0 ..< n}" by (rule_tac image_eqI)
      qed
    qed
    then show ?thesis by (simp add: set_range1)
  qed
qed

lemma validate_permutation_eq:
  assumes "wf_dict d"
  shows "validate_permutation d = (if is_bijection d then Inr (sort d) else Inl InvalidPermutation)"
proof -
  have dist: "distinct (map fst (sort d))"
    using assms by (simp add: wf_dict_def distinct_map)
  have p: "dict_of_items (sort d) = sort d"
    by (rule dict_of_items_distinct [OF dist])
  have sk: "sorted (map fst (sort d))" by (rule sorted_map_fst) simp
  have keys: "map fst (sort d) = range1 (length d) \<longleftrightarrow> set (map fst d) = set (range1 (length d))"
  proof
    assume "map fst (sort d) = range1 (length d)"
    then have "set (map fst (sort d)) = set (range1 (length d))" by simp
    then show "set (map fst d) = set (range1 (length d))" by simp
  next
    assume h: "set (map fst d) = set (range1 (length d))"
    show "map fst (sort d) = range1 (length d)"
    proof (rule sorted_distinct_set_unique [OF sk dist])
      show "sorted (range1 (length d))" by (simp add: range1_def)
      show "distinct (range1 (length d))" by (rule distinct_range1)
      show "set (map fst (sort d)) = set (range1 (length d))" using h by simp
    qed
  qed
  have vals: "set (map snd (sort d)) = set (map snd d)" by simp
  have "validate_permutation d =
          (if map fst (sort d) \<noteq> range1 (length d) then Inl InvalidPermutation
           else if set (map snd (sort d)) \<noteq> set (range1 (length d)) then Inl InvalidPermutation
           else Inr (sort d))"
    by (simp add: validate_permutation_def p Let_def range1_as_map dict_keys_def
        dict_values_def del: set_map)
  also have "\<dots> = (if is_bijection d then Inr (sort d) else Inl InvalidPermutation)"
    unfolding keys vals using assms
    by (simp add: is_bijection_def dict_keys_def dict_values_def del: set_map)
  finally show ?thesis .
qed

text \<open>
  \<^verbatim>\<open>validate_permutation\<close> decides whether a dictionary is a bijection of
  \<open>{1, \<dots>, n}\<close>: it returns such a dictionary sorted by key and fails with
  \<open>InvalidPermutation\<close> on every other one.
\<close>

lemma validate_permutation_decides:
  assumes "wf_dict d"
  shows "(is_bijection d \<longrightarrow> validate_permutation d = Inr (sort d))
         \<and> (\<not> is_bijection d \<longrightarrow> validate_permutation d = Inl InvalidPermutation)"
  using assms by (simp add: validate_permutation_eq)

lemma Permutation_init_total:
  "Permutation_init d = Inr \<lparr>permutation = d, num_letters = length d\<rparr>"
  by (simp add: Permutation_init_def)

text \<open>
  C1.  The claim is that the constructor fails with \<open>InvalidPermutation\<close> on every
  dictionary that is no bijection of \<open>{1, \<dots>, n}\<close>.  The class has the check,
  \<^verbatim>\<open>validate_permutation\<close>, and the constructor does not call it: the dictionary
  \<open>{1: 1, 2: 1}\<close> is no bijection, \<^verbatim>\<open>validate_permutation\<close> rejects it, and the
  constructor returns an object for it.
\<close>

theorem constructor_accepts_non_bijection:
  "\<not> is_bijection [(1, 1), (2, 1)]
   \<and> validate_permutation [(1, 1), (2, 1)] = Inl InvalidPermutation
   \<and> Permutation_init [(1, 1), (2, 1)] = Inr \<lparr>permutation = [(1, 1), (2, 1)], num_letters = 2\<rparr>"
proof -
  have w: "wf_dict [(1, 1), (2, 1)]" by (simp add: wf_dict_def)
  have b: "\<not> is_bijection [(1, 1), (2, 1)]"
    by (auto simp: is_bijection_def wf_dict_def dict_keys_def dict_values_def range1_def upto.simps)
  show ?thesis
    using validate_permutation_decides [OF w] b by (simp add: Permutation_init_total)
qed

lemma bijection_values_distinct:
  assumes "is_bijection d"
  shows "distinct (map snd d)"
proof -
  have "card (set (map snd d)) = card {1 .. int (length d)}"
    using assms by (simp add: is_bijection_def dict_values_def set_range1 del: set_map)
  then have "card (set (map snd d)) = length (map snd d)" by simp
  then show ?thesis by (rule card_distinct)
qed

lemma valid_identity: "valid_permutation \<lparr>permutation = identity_dict n, num_letters = n\<rparr>"
  by (simp add: valid_permutation_def is_bijection_def identity_dict_eq wf_dict_def
      dict_keys_def dict_values_def comp_def distinct_range1 length_range1)

lemma is_identity_identity:
  "Permutation_is_identity \<lparr>permutation = identity_dict n, num_letters = n\<rparr>"
  by (simp add: Permutation_is_identity_def dict_eq_refl identity_dict_eq comp_def distinct_range1)

text \<open>
  C4.  For a valid permutation \<open>p\<close> of degree \<open>n\<close>, the inverse is returned, the
  product of \<open>p\<close> with its inverse is the identity permutation of degree \<open>n\<close>, and
  so is the zeroth power of \<open>p\<close>; \<^verbatim>\<open>is_identity\<close> holds for it.
\<close>

theorem inverse_and_zeroth_power:
  assumes "valid_permutation p" "num_letters p = n"
  shows "\<exists>q. Permutation_invert p = Inr q
           \<and> Permutation_mul p q = Inr \<lparr>permutation = identity_dict n, num_letters = n\<rparr>
           \<and> Permutation_pow p 0 = Inr \<lparr>permutation = identity_dict n, num_letters = n\<rparr>
           \<and> Permutation_is_identity \<lparr>permutation = identity_dict n, num_letters = n\<rparr>"
proof -
  let ?d = "permutation p"
  let ?inv = "map (\<lambda>(k, v). (v, k)) ?d"
  have bij: "is_bijection ?d" and len: "length ?d = n"
    using assms by (simp_all add: valid_permutation_def)
  have dk: "distinct (map fst ?d)" using bij by (simp add: is_bijection_def wf_dict_def)
  have fst_inv: "map fst ?inv = map snd ?d" by (simp add: comp_def case_prod_beta)
  have dv: "distinct (map fst ?inv)"
    unfolding fst_inv by (rule bijection_values_distinct [OF bij])
  let ?q = "\<lparr>permutation = ?inv, num_letters = n\<rparr>"
  have inv: "Permutation_invert p = Inr ?q"
    by (simp add: Permutation_invert_def Permutation_init_def dict_of_items_distinct [OF dv] len)
  have look: "\<exists>j v. map_of ?inv i = Some j \<and> map_of ?d j = Some v \<and> v = i"
    if "i \<in> set (range1 n)" for i
  proof -
    have "i \<in> set (map snd ?d)"
      using that bij len by (simp add: is_bijection_def dict_values_def del: set_map)
    then obtain k where k: "(k, i) \<in> set ?d" by auto
    then have "(i, k) \<in> set ?inv" by force
    then have "map_of ?inv i = Some k" using dv by simp
    moreover have "map_of ?d k = Some i" using k dk by simp
    ultimately show ?thesis by simp
  qed
  have "mul_items ?d ?inv (range1 n) = Inr (map (\<lambda>i. (i, apply_dict ?d (apply_dict ?inv i))) (range1 n))"
    by (rule mul_items_ok) (use look in blast)
  also have "map (\<lambda>i. (i, apply_dict ?d (apply_dict ?inv i))) (range1 n) = map (\<lambda>i. (i, i)) (range1 n)"
  proof (rule map_cong [OF refl])
    fix i assume "i \<in> set (range1 n)"
    from look [OF this] show "(i, apply_dict ?d (apply_dict ?inv i)) = (i, i)"
      by (auto simp: apply_dict_def)
  qed
  finally have items: "mul_items ?d ?inv (range1 n) = Inr (identity_dict n)"
    by (simp add: identity_dict_eq)
  have dist_id: "distinct (map fst (identity_dict n))"
    by (simp add: identity_dict_eq comp_def distinct_range1)
  have len_id: "length (identity_dict n) = n"
    by (simp add: identity_dict_eq length_range1)
  have mul: "Permutation_mul p ?q = Inr \<lparr>permutation = identity_dict n, num_letters = n\<rparr>"
    using items assms(2)
    by (simp add: Permutation_mul_def Permutation_init_def dict_of_items_distinct [OF dist_id]
        len_id)
  have pow: "Permutation_pow p 0 = Inr \<lparr>permutation = identity_dict n, num_letters = n\<rparr>"
    using assms(2) by (simp add: Permutation_pow_def Permutation_init_def len_id)
  show ?thesis
    using inv mul pow is_identity_identity by blast
qed


lemma valid_example3: "valid_permutation \<lparr>permutation = [(1, 2), (2, 3), (3, 1)], num_letters = 3\<rparr>"
  by (auto simp: valid_permutation_def is_bijection_def wf_dict_def dict_keys_def
      dict_values_def range1_def upto.simps)

lemma valid_example3': "valid_permutation \<lparr>permutation = [(1, 1), (2, 3), (3, 2)], num_letters = 3\<rparr>"
  by (auto simp: valid_permutation_def is_bijection_def wf_dict_def dict_keys_def
      dict_values_def range1_def upto.simps)

theorem Permutation_mul_composes_witness:
  "valid_permutation \<lparr>permutation = [(1, 2), (2, 3), (3, 1)], num_letters = 3\<rparr>
   \<and> valid_permutation \<lparr>permutation = [(1, 1), (2, 3), (3, 2)], num_letters = 3\<rparr>
   \<and> (\<exists>c. Permutation_mul \<lparr>permutation = [(1, 2), (2, 3), (3, 1)], num_letters = 3\<rparr>
              \<lparr>permutation = [(1, 1), (2, 3), (3, 2)], num_letters = 3\<rparr> = Inr c
           \<and> num_letters c = 3 \<and> dict_keys (permutation c) = range1 3
           \<and> (\<exists>j k. dict_get [(1, 1), (2, 3), (3, 2)] 2 = Inr j
                   \<and> dict_get [(1, 2), (2, 3), (3, 1)] j = Inr k
                   \<and> dict_get (permutation c) 2 = Inr k))"
proof -
  obtain c where c:
    "Permutation_mul \<lparr>permutation = [(1, 2), (2, 3), (3, 1)], num_letters = 3\<rparr>
       \<lparr>permutation = [(1, 1), (2, 3), (3, 2)], num_letters = 3\<rparr> = Inr c"
    "num_letters c = 3" "dict_keys (permutation c) = range1 3"
    "\<forall>i. 1 \<le> i \<and> i \<le> int 3 \<longrightarrow>
       (\<exists>j k. dict_get (permutation \<lparr>permutation = [(1, 1), (2, 3), (3, 2)], num_letters = 3\<rparr>) i = Inr j
            \<and> dict_get (permutation \<lparr>permutation = [(1, 2), (2, 3), (3, 1)], num_letters = 3\<rparr>) j = Inr k
            \<and> dict_get (permutation c) i = Inr k)"
    using Permutation_mul_composes [OF valid_example3 valid_example3', of 3] by auto
  from c(4) have "\<exists>j k. dict_get [(1, 1), (2, 3), (3, 2)] 2 = Inr j
                   \<and> dict_get [(1, 2), (2, 3), (3, 1)] j = Inr k
                   \<and> dict_get (permutation c) 2 = Inr k"
    by (drule_tac x = 2 in spec) simp
  with c(1-3) valid_example3 valid_example3' show ?thesis by blast
qed

theorem inverse_and_zeroth_power_witness:
  "valid_permutation \<lparr>permutation = [(1, 2), (2, 3), (3, 1)], num_letters = 3\<rparr>
   \<and> (\<exists>q. Permutation_invert \<lparr>permutation = [(1, 2), (2, 3), (3, 1)], num_letters = 3\<rparr> = Inr q
         \<and> Permutation_mul \<lparr>permutation = [(1, 2), (2, 3), (3, 1)], num_letters = 3\<rparr> q
             = Inr \<lparr>permutation = identity_dict 3, num_letters = 3\<rparr>
         \<and> Permutation_pow \<lparr>permutation = [(1, 2), (2, 3), (3, 1)], num_letters = 3\<rparr> 0
             = Inr \<lparr>permutation = identity_dict 3, num_letters = 3\<rparr>
         \<and> Permutation_is_identity \<lparr>permutation = identity_dict 3, num_letters = 3\<rparr>)"
  using inverse_and_zeroth_power [OF valid_example3, of 3] valid_example3 by simp

section \<open>Cycle tracing and cycle notation\<close>

lemma bijection_apply_range:
  assumes "is_bijection d" "1 \<le> i" "i \<le> int (length d)"
  shows "map_of d i = Some (apply_dict d i)" "1 \<le> apply_dict d i" "apply_dict d i \<le> int (length d)"
  using bijection_lookup [OF assms] by (auto simp: apply_dict_def)

lemma bijection_apply_inj:
  assumes "is_bijection d" "1 \<le> i" "i \<le> int (length d)" "1 \<le> j" "j \<le> int (length d)"
    "apply_dict d i = apply_dict d j"
  shows "i = j"
proof -
  have mi: "map_of d i = Some (apply_dict d i)" and mj: "map_of d j = Some (apply_dict d i)"
    using bijection_apply_range(1) [OF assms(1)] assms by simp_all
  have dv: "distinct (map snd d)" by (rule bijection_values_distinct [OF assms(1)])
  from mi have "(i, apply_dict d i) \<in> set d" by (rule map_of_SomeD)
  then obtain a where a: "a < length d" "d ! a = (i, apply_dict d i)"
    by (auto simp: in_set_conv_nth)
  from mj have "(j, apply_dict d i) \<in> set d" by (rule map_of_SomeD)
  then obtain b where b: "b < length d" "d ! b = (j, apply_dict d i)"
    by (auto simp: in_set_conv_nth)
  have "map snd d ! a = map snd d ! b" using a b by simp
  then have "a = b" using dv a b nth_eq_iff_index_eq [of "map snd d" a b] by simp
  then show ?thesis using a b by simp
qed

lemma orbit_in_range:
  assumes "is_bijection d" "1 \<le> s" "s \<le> int (length d)"
  shows "1 \<le> (apply_dict d ^^ k) s \<and> (apply_dict d ^^ k) s \<le> int (length d)"
  by (induction k) (use assms bijection_apply_range in auto)

lemma orbit_cancel:
  assumes "is_bijection d" "1 \<le> s" "s \<le> int (length d)"
    "(apply_dict d ^^ (i + k)) s = (apply_dict d ^^ i) s"
  shows "(apply_dict d ^^ k) s = s"
  using assms(4)
proof (induction i)
  case 0
  then show ?case by simp
next
  case (Suc i)
  have "apply_dict d ((apply_dict d ^^ (i + k)) s) = apply_dict d ((apply_dict d ^^ i) s)"
    using Suc.prems by simp
  then have "(apply_dict d ^^ (i + k)) s = (apply_dict d ^^ i) s"
    using bijection_apply_inj [OF assms(1)] orbit_in_range [OF assms(1-3)] by metis
  then show ?case by (rule Suc.IH)
qed

lemma orbit_returns:
  assumes "is_bijection d" "1 \<le> s" "s \<le> int (length d)"
  shows "\<exists>m. 0 < m \<and> (apply_dict d ^^ m) s = s"
proof -
  let ?g = "\<lambda>k. (apply_dict d ^^ k) s"
  have img: "?g ` {0 .. length d} \<subseteq> {1 .. int (length d)}"
    using orbit_in_range [OF assms] by auto
  have "card (?g ` {0 .. length d}) \<le> card {1 .. int (length d)}"
    by (rule card_mono [OF _ img]) simp
  then have "card (?g ` {0 .. length d}) < card {0 .. length d}" by simp
  then have "\<not> inj_on ?g {0 .. length d}" by (rule pigeonhole)
  then obtain i j where ij: "i \<noteq> j" "?g i = ?g j"
    by (auto simp: inj_on_def)
  show ?thesis
  proof (cases "i < j")
    case True
    then have "(apply_dict d ^^ (i + (j - i))) s = (apply_dict d ^^ i) s" using ij by simp
    from orbit_cancel [OF assms this] True show ?thesis by (intro exI [of _ "j - i"]) simp
  next
    case False
    then have lt: "j < i" using ij by simp
    then have "(apply_dict d ^^ (j + (i - j))) s = (apply_dict d ^^ j) s" using ij by simp
    from orbit_cancel [OF assms this] lt show ?thesis by (intro exI [of _ "i - j"]) simp
  qed
qed

lemma period_props:
  assumes "is_bijection d" "1 \<le> s" "s \<le> int (length d)"
  shows "0 < period d s" "(apply_dict d ^^ period d s) s = s"
    "\<And>k. 0 < k \<Longrightarrow> k < period d s \<Longrightarrow> (apply_dict d ^^ k) s \<noteq> s"
proof -
  obtain m where m: "0 < m \<and> (apply_dict d ^^ m) s = s"
    using orbit_returns [OF assms] by blast
  from LeastI [of "\<lambda>m. 0 < m \<and> (apply_dict d ^^ m) s = s", OF m]
  show "0 < period d s" "(apply_dict d ^^ period d s) s = s"
    by (simp_all add: period_def)
  fix k assume "0 < k" "k < period d s"
  then show "(apply_dict d ^^ k) s \<noteq> s"
    using not_less_Least [of k "\<lambda>m. 0 < m \<and> (apply_dict d ^^ m) s = s"]
    by (auto simp: period_def)
qed

lemma orbit_distinct:
  assumes "is_bijection d" "1 \<le> s" "s \<le> int (length d)" "i < j" "j < period d s"
  shows "(apply_dict d ^^ i) s \<noteq> (apply_dict d ^^ j) s"
proof
  assume "(apply_dict d ^^ i) s = (apply_dict d ^^ j) s"
  then have "(apply_dict d ^^ (i + (j - i))) s = (apply_dict d ^^ i) s" using assms(4) by simp
  from orbit_cancel [OF assms(1-3) this] have "(apply_dict d ^^ (j - i)) s = s" .
  moreover have "0 < j - i" "j - i < period d s" using assms by simp_all
  ultimately show False using period_props(3) [OF assms(1-3)] by blast
qed

lemma orbit_Suc: "orbit d s (Suc j) = orbit d s j @ [(apply_dict d ^^ j) s]"
  by (simp add: orbit_def)

lemma orbit_distinct_list:
  assumes "is_bijection d" "1 \<le> s" "s \<le> int (length d)" "j \<le> period d s"
  shows "distinct (orbit d s j)"
proof -
  have "inj_on (\<lambda>i. (apply_dict d ^^ i) s) {0 ..< j}"
  proof (rule inj_onI)
    fix a b assume ab: "a \<in> {0 ..< j}" "b \<in> {0 ..< j}"
      and eq: "(apply_dict d ^^ a) s = (apply_dict d ^^ b) s"
    show "a = b"
    proof (rule ccontr)
      assume "a \<noteq> b"
      then consider "a < b" | "b < a" by linarith
      then show False
      proof cases
        case 1
        then show False using orbit_distinct [OF assms(1-3), of a b] ab assms(4) eq by simp
      next
        case 2
        then show False using orbit_distinct [OF assms(1-3), of b a] ab assms(4) eq by simp
      qed
    qed
  qed
  then show ?thesis by (simp add: orbit_def distinct_map)
qed

lemma find_cycle_loop_orbit:
  assumes "is_bijection d" "1 \<le> s" "s \<le> int (length d)" "period d s = Suc m" "j \<le> m"
  shows "find_cycle_loop d s ((apply_dict d ^^ j) s) (cycle_items d (orbit d s j))
         = Some (Inr ((apply_dict d ^^ m) s, cycle_items d (orbit d s m)))"
  using assms(5)
proof (induction "m - j" arbitrary: j)
  case 0
  then have j: "j = m" by simp
  have "(apply_dict d ^^ Suc m) s = s"
    using period_props(2) [OF assms(1-3)] assms(4) by simp
  then have ret: "apply_dict d ((apply_dict d ^^ m) s) = s" by simp
  have get: "dict_get d ((apply_dict d ^^ m) s) = Inr s"
    using bijection_apply_range(1) [OF assms(1)] orbit_in_range [OF assms(1-3), of m] ret
    by (simp add: dict_get_def)
  show ?case
    unfolding j by (subst find_cycle_loop.simps) (simp add: get)
next
  case (Suc k)
  then have lt: "Suc j \<le> m" by simp
  have ne: "apply_dict d ((apply_dict d ^^ j) s) \<noteq> s"
    using period_props(3) [OF assms(1-3), of "Suc j"] lt assms(4) by simp
  have get: "dict_get d ((apply_dict d ^^ j) s) = Inr (apply_dict d ((apply_dict d ^^ j) s))"
    using bijection_apply_range(1) [OF assms(1)] orbit_in_range [OF assms(1-3), of j]
    by (simp add: dict_get_def)
  have "distinct (orbit d s (Suc j))"
    by (rule orbit_distinct_list [OF assms(1-3)]) (use lt assms(4) in simp)
  then have new: "(apply_dict d ^^ j) s \<notin> set (map fst (cycle_items d (orbit d s j)))"
    by (simp add: orbit_Suc cycle_items_def comp_def)
  have "cycle_items d (orbit d s (Suc j)) = cycle_items d (orbit d s j)
          @ [((apply_dict d ^^ j) s, apply_dict d ((apply_dict d ^^ j) s))]"
    by (simp add: cycle_items_def orbit_Suc)
  then have step: "dict_set (cycle_items d (orbit d s j)) ((apply_dict d ^^ j) s)
                (apply_dict d ((apply_dict d ^^ j) s)) = cycle_items d (orbit d s (Suc j))"
    using dict_set_new [OF new] by simp
  have "k = m - Suc j" using Suc.hyps(2) by simp
  from Suc.hyps(1) [OF this lt]
  have IH: "find_cycle_loop d s (apply_dict d ((apply_dict d ^^ j) s))
              (cycle_items d (orbit d s (Suc j)))
            = Some (Inr ((apply_dict d ^^ m) s, cycle_items d (orbit d s m)))"
    by simp
  show ?case
    by (subst find_cycle_loop.simps) (simp add: get step ne IH)
qed

lemma find_cycle_dict_orbit:
  assumes "valid_permutation p" "1 \<le> s" "s \<le> int (num_letters p)"
  shows "find_cycle_dict p s
         = Some (Inr (cycle_items (permutation p) (orbit (permutation p) s (period (permutation p) s))))"
proof -
  let ?d = "permutation p"
  have bij: "is_bijection ?d" and s: "1 \<le> s" "s \<le> int (length ?d)"
    using assms by (simp_all add: valid_permutation_def)
  obtain m where m: "period ?d s = Suc m"
    using period_props(1) [OF bij s] by (cases "period ?d s") simp_all
  have loop: "find_cycle_loop ?d s s [] =
              Some (Inr ((apply_dict ?d ^^ m) s, cycle_items ?d (orbit ?d s m)))"
    using find_cycle_loop_orbit [OF bij s m, of 0] by (simp add: orbit_def cycle_items_def)
  have get: "dict_get ?d ((apply_dict ?d ^^ m) s) = Inr (apply_dict ?d ((apply_dict ?d ^^ m) s))"
    using bijection_apply_range(1) [OF bij] orbit_in_range [OF bij s, of m]
    by (simp add: dict_get_def)
  have "distinct (orbit ?d s (Suc m))"
    by (rule orbit_distinct_list [OF bij s]) (use m in simp)
  then have new: "(apply_dict ?d ^^ m) s \<notin> set (map fst (cycle_items ?d (orbit ?d s m)))"
    by (simp add: orbit_Suc cycle_items_def comp_def)
  have "cycle_items ?d (orbit ?d s (Suc m)) = cycle_items ?d (orbit ?d s m)
          @ [((apply_dict ?d ^^ m) s, apply_dict ?d ((apply_dict ?d ^^ m) s))]"
    by (simp add: cycle_items_def orbit_Suc)
  then have step: "dict_set (cycle_items ?d (orbit ?d s m)) ((apply_dict ?d ^^ m) s)
                (apply_dict ?d ((apply_dict ?d ^^ m) s)) = cycle_items ?d (orbit ?d s (Suc m))"
    using dict_set_new [OF new] by simp
  show ?thesis
    unfolding m by (simp add: find_cycle_dict_def loop get step)
qed

lemma trace_cycle_orbit:
  assumes "is_bijection d" "1 \<le> s" "s \<le> int (length d)" "period d s = Suc m"
    "j \<le> m" "m - j \<le> fuel"
  shows "trace_cycle d s ((apply_dict d ^^ j) s) fuel = map (\<lambda>i. (apply_dict d ^^ i) s) [j ..< Suc m]"
  using assms(5,6)
proof (induction fuel arbitrary: j)
  case 0
  then have "j = m" by simp
  then show ?case by simp
next
  case (Suc fuel)
  show ?case
  proof (cases "j = m")
    case True
    have "(apply_dict d ^^ Suc m) s = s"
      using period_props(2) [OF assms(1-3)] assms(4) by simp
    then show ?thesis using True by simp
  next
    case False
    then have lt: "Suc j \<le> m" using Suc.prems by simp
    have ne: "apply_dict d ((apply_dict d ^^ j) s) \<noteq> s"
      using period_props(3) [OF assms(1-3), of "Suc j"] lt assms(4) by simp
    have "m - Suc j \<le> fuel" using Suc.prems by simp
    from Suc.IH [OF lt this]
    have IH: "trace_cycle d s (apply_dict d ((apply_dict d ^^ j) s)) fuel
              = map (\<lambda>i. (apply_dict d ^^ i) s) [Suc j ..< Suc m]" by simp
    have "[j ..< Suc m] = j # [Suc j ..< Suc m]"
      using lt by (simp add: upt_conv_Cons)
    then show ?thesis using ne IH by simp
  qed
qed

lemma period_le_length:
  assumes "is_bijection d" "1 \<le> s" "s \<le> int (length d)"
  shows "period d s \<le> length d"
proof -
  have dist: "distinct (orbit d s (period d s))"
    by (rule orbit_distinct_list [OF assms]) simp
  have "set (orbit d s (period d s)) \<subseteq> {1 .. int (length d)}"
    using orbit_in_range [OF assms] by (auto simp: orbit_def)
  then have "card (set (orbit d s (period d s))) \<le> card {1 .. int (length d)}"
    by (intro card_mono) simp_all
  then show ?thesis using distinct_card [OF dist] by (simp add: orbit_def)
qed

lemma cycle_of_orbit:
  assumes "is_bijection d" "1 \<le> s" "s \<le> int (length d)"
  shows "cycle_of d s = orbit d s (period d s)"
proof -
  obtain m where m: "period d s = Suc m"
    using period_props(1) [OF assms] by (cases "period d s") simp_all
  have "m \<le> length d" using period_le_length [OF assms] m by simp
  then have "trace_cycle d s ((apply_dict d ^^ 0) s) (length d)
             = map (\<lambda>i. (apply_dict d ^^ i) s) [0 ..< Suc m]"
    by (intro trace_cycle_orbit [OF assms m]) simp_all
  then show ?thesis by (simp add: cycle_of_def orbit_def m)
qed

lemma find_cycle_dict_cycle_of:
  assumes "valid_permutation p" "1 \<le> s" "s \<le> int (num_letters p)"
  shows "find_cycle_dict p s = Some (Inr (cycle_items (permutation p) (cycle_of (permutation p) s)))"
  using find_cycle_dict_orbit [OF assms] cycle_of_orbit [of "permutation p" s] assms
  by (simp add: valid_permutation_def)

lemma set_difference_append:
  "set_difference (set_difference xs ys) zs = set_difference xs (ys @ zs)"
  by (auto simp: set_difference_def intro: filter_cong)

lemma cycle_items_keys: "dict_keys (cycle_items d c) = c"
  by (simp add: dict_keys_def cycle_items_def comp_def)

lemma cycle_items_length: "length (cycle_items d c) = length c"
  by (simp add: cycle_items_def)

lemma cycle_string_items: "cycle_string (cycle_items d c) = cycle_text c"
  by (simp add: cycle_string_def cycle_text_def cycle_items_keys)

lemma notation_for_discover:
  assumes "valid_permutation p"
    and "\<And>k. k \<in> set ks \<Longrightarrow> 1 \<le> k \<and> k \<le> int (num_letters p)"
    and "\<And>k. k \<in> set ks \<Longrightarrow> (k \<in> set upd) = (k \<notin> set seen)"
  shows "notation_for p ks (upd, cl) =
           Some (Inr (set_difference upd (concat (discover (permutation p) ks seen)),
                      cl @ map cycle_text (filter (\<lambda>c. length c > 1)
                                             (discover (permutation p) ks seen))))"
  using assms(2,3)
proof (induction ks arbitrary: upd seen cl)
  case Nil
  then show ?case by (simp add: set_difference_def)
next
  case (Cons k ks)
  let ?d = "permutation p"
  show ?case
  proof (cases "k \<in> set upd")
    case False
    then have seen: "k \<in> set seen" using Cons.prems(2) [of k] by simp
    have "notation_for p ks (upd, cl) =
           Some (Inr (set_difference upd (concat (discover ?d ks seen)),
                      cl @ map cycle_text (filter (\<lambda>c. length c > 1) (discover ?d ks seen))))"
      by (rule Cons.IH) (use Cons.prems in auto)
    then show ?thesis using False seen by simp
  next
    case True
    then have unseen: "k \<notin> set seen" using Cons.prems(2) [of k] by simp
    let ?c = "cycle_of ?d k"
    have fc: "find_cycle_dict p k = Some (Inr (cycle_items ?d ?c))"
      by (rule find_cycle_dict_cycle_of [OF assms(1)]) (use Cons.prems(1) [of k] in simp_all)
    have IH: "notation_for p ks (set_difference upd ?c, cl') =
           Some (Inr (set_difference (set_difference upd ?c) (concat (discover ?d ks (seen @ ?c))),
                      cl' @ map cycle_text (filter (\<lambda>c. length c > 1)
                                              (discover ?d ks (seen @ ?c)))))" for cl'
      by (rule Cons.IH) (use Cons.prems in \<open>auto simp: set_difference_def\<close>)
    show ?thesis
      using True unseen
      by (simp add: fc IH cycle_items_keys cycle_string_items set_difference_append
          cycle_items_length)
  qed
qed

lemma trace_cycle_head: "x \<in> set (trace_cycle d s x fuel)"
  by (cases fuel) simp_all

lemma discover_covers: "set ks \<subseteq> set seen \<union> set (concat (discover d ks seen))"
proof (induction ks arbitrary: seen)
  case Nil
  then show ?case by simp
next
  case (Cons k ks)
  have "k \<in> set (cycle_of d k)" by (simp add: cycle_of_def trace_cycle_head)
  then show ?case
    using Cons.IH [of seen] Cons.IH [of "seen @ cycle_of d k"] by auto
qed

lemma set_iteration_ascending: "set_iteration ascending"
  by (simp add: set_iteration_def ascending_def)

lemma map_of_identity_dict:
  "map_of (identity_dict n) k = (if 1 \<le> k \<and> k \<le> int n then Some k else None)"
proof -
  have "map_of (map (\<lambda>i. (i, i)) (range1 n)) k = (if k \<in> set (range1 n) then Some k else None)"
    by (simp add: map_of_map_restrict restrict_map_def)
  then show ?thesis by (simp add: identity_dict_eq set_range1)
qed

lemma length_identity_dict: "length (identity_dict n) = n"
  by (simp add: identity_dict_eq length_range1)

lemma is_identity_iff_fixes:
  assumes "valid_permutation p"
  shows "Permutation_is_identity p \<longleftrightarrow> (\<forall>i. apply_dict (permutation p) i = i)"
proof -
  let ?d = "permutation p"
  have bij: "is_bijection ?d" and n: "num_letters p = length ?d"
    using assms by (simp_all add: valid_permutation_def)
  have dk: "distinct (map fst ?d)" using bij by (simp add: is_bijection_def wf_dict_def)
  have keys: "\<And>k v. (k, v) \<in> set ?d \<Longrightarrow> 1 \<le> k \<and> k \<le> int (length ?d)"
  proof -
    fix k v assume "(k, v) \<in> set ?d"
    then have "k \<in> set (dict_keys ?d)" by (force simp: dict_keys_def)
    then show "1 \<le> k \<and> k \<le> int (length ?d)"
      using bij by (simp add: is_bijection_def set_range1)
  qed
  have "Permutation_is_identity p \<longleftrightarrow> (\<forall>(k, v) \<in> set ?d. v = k)"
    using keys
    by (auto simp: Permutation_is_identity_def dict_eq_def list_all_iff n map_of_identity_dict
        length_identity_dict)
  also have "\<dots> \<longleftrightarrow> (\<forall>i. apply_dict ?d i = i)"
  proof
    assume h: "\<forall>(k, v) \<in> set ?d. v = k"
    show "\<forall>i. apply_dict ?d i = i"
    proof
      fix i
      show "apply_dict ?d i = i"
      proof (cases "map_of ?d i")
        case None
        then show ?thesis by (simp add: apply_dict_def)
      next
        case (Some v)
        then have "(i, v) \<in> set ?d" by (rule map_of_SomeD)
        then have "v = i" using h by auto
        then show ?thesis using Some by (simp add: apply_dict_def)
      qed
    qed
  next
    assume h: "\<forall>i. apply_dict ?d i = i"
    show "\<forall>(k, v) \<in> set ?d. v = k"
    proof (clarify)
      fix k v assume kv: "(k, v) \<in> set ?d"
      then have "map_of ?d k = Some v" using dk by simp
      then have "apply_dict ?d k = v" by (simp add: apply_dict_def)
      then show "v = k" using h by simp
    qed
  qed
  finally show ?thesis .
qed

lemma notation_while_valid:
  assumes "valid_permutation p" "set_iteration it"
  shows "notation_while p (it (dict_keys (permutation p))) (dict_keys (permutation p), [])
         = Some (Inr (map cycle_text (filter (\<lambda>c. length c > 1)
                        (discover (permutation p) (it (dict_keys (permutation p))) []))))"
proof -
  let ?d = "permutation p"
  let ?keys = "dict_keys ?d"
  let ?ks = "it ?keys"
  let ?cs = "discover ?d ?ks []"
  have bij: "is_bijection ?d" and n: "num_letters p = length ?d"
    using assms by (simp_all add: valid_permutation_def)
  have sks: "set ?ks = set ?keys" using assms(2) by (simp add: set_iteration_def)
  have rng: "\<And>k. k \<in> set ?ks \<Longrightarrow> 1 \<le> k \<and> k \<le> int (num_letters p)"
    using bij sks n by (simp add: is_bijection_def set_range1)
  have rel: "\<And>k. k \<in> set ?ks \<Longrightarrow> (k \<in> set ?keys) = (k \<notin> set [])"
    using sks by simp
  have loop: "notation_for p ?ks (?keys, []) =
           Some (Inr (set_difference ?keys (concat ?cs),
                      [] @ map cycle_text (filter (\<lambda>c. length c > 1) ?cs)))"
    by (rule notation_for_discover [OF assms(1) rng rel])
  have "set ?keys \<subseteq> set (concat ?cs)"
    using discover_covers [of ?ks "[]" ?d] sks by simp
  then have empty: "set_difference ?keys (concat ?cs) = []"
    by (auto simp: set_difference_def filter_empty_conv)
  show ?thesis
  proof (cases "?keys = []")
    case True
    then have "?ks = []" using sks by simp
    then show ?thesis using True
      by (subst notation_while.simps) simp
  next
    case False
    have second: "notation_while p ?ks ([], cl) = Some (Inr cl)" for cl
      by (subst notation_while.simps) simp
    show ?thesis
      by (subst notation_while.simps) (use False in \<open>simp add: loop empty second\<close>)
  qed
qed

lemma get_cycle_notation_valid:
  assumes "valid_permutation p" "set_iteration it"
  shows "get_cycle_notation it p =
           (if \<forall>i. apply_dict (permutation p) i = i then Some (Inr ''1'')
            else Some (Inr (cycle_notation_spec it (permutation p))))"
  using is_identity_iff_fixes [OF assms(1)] notation_while_valid [OF assms]
  by (simp add: get_cycle_notation_def cycle_notation_spec_def)

lemma valid_example4:
  "valid_permutation \<lparr>permutation = [(1, 2), (2, 3), (3, 1), (4, 4)], num_letters = 4\<rparr>"
  by (auto simp: valid_permutation_def is_bijection_def wf_dict_def dict_keys_def
      dict_values_def range1_def upto.simps)

lemma spec_example4: "cycle_notation_spec ascending [(1, 2), (2, 3), (3, 1), (4, 4)] = ''(1 2 3)''"
  by code_simp

lemma example4_notation:
  "get_cycle_notation ascending \<lparr>permutation = [(1, 2), (2, 3), (3, 1), (4, 4)], num_letters = 4\<rparr>
   = Some (Inr ''(1 2 3)'')"
proof -
  have "apply_dict [(1, 2), (2, 3), (3, 1), (4, 4)] 1 \<noteq> 1" by (simp add: apply_dict_def)
  then have "\<not> (\<forall>i. apply_dict [(1, 2), (2, 3), (3, 1), (4, 4)] i = i)" by blast
  then show ?thesis
    using get_cycle_notation_valid [OF valid_example4 set_iteration_ascending]
    by (simp add: spec_example4)
qed

text \<open>
  C8.  For a valid permutation, whatever the iteration order of the key set: the
  notation of the identity is the string \<open>1\<close>; the notation of any other
  permutation is the concatenation, in reverse order of discovery, of its cycles of
  length above one, each written as its elements in traversal order between
  parentheses and separated by spaces (\<open>cycle_notation_spec\<close>).  The code returns:
  no loop runs forever and no lookup fails.  The permutation
  \<open>{1: 2, 2: 3, 3: 1, 4: 4}\<close> is written \<open>(1 2 3)\<close>.
\<close>

theorem cycle_notation_correct:
  assumes "valid_permutation p" "set_iteration it"
  shows "((\<forall>i. apply_dict (permutation p) i = i) \<longrightarrow> get_cycle_notation it p = Some (Inr ''1''))
       \<and> ((\<exists>i. apply_dict (permutation p) i \<noteq> i) \<longrightarrow>
            get_cycle_notation it p = Some (Inr (cycle_notation_spec it (permutation p))))
       \<and> get_cycle_notation ascending
            \<lparr>permutation = [(1, 2), (2, 3), (3, 1), (4, 4)], num_letters = 4\<rparr>
          = Some (Inr ''(1 2 3)'')"
  using get_cycle_notation_valid [OF assms] example4_notation by simp

lemma spec_example5:
  "cycle_notation_spec ascending [(1, 3), (2, 5), (3, 1), (4, 4), (5, 2)] = ''(2 5)(1 3)''"
  by code_simp

lemma valid_example5:
  "valid_permutation \<lparr>permutation = [(1, 3), (2, 5), (3, 1), (4, 4), (5, 2)], num_letters = 5\<rparr>"
  by (auto simp: valid_permutation_def is_bijection_def wf_dict_def dict_keys_def
      dict_values_def range1_def upto.simps)

theorem cycle_notation_correct_witness:
  "valid_permutation \<lparr>permutation = [(1, 3), (2, 5), (3, 1), (4, 4), (5, 2)], num_letters = 5\<rparr>
   \<and> set_iteration ascending
   \<and> apply_dict [(1, 3), (2, 5), (3, 1), (4, 4), (5, 2)] 1 \<noteq> 1
   \<and> get_cycle_notation ascending
        \<lparr>permutation = [(1, 3), (2, 5), (3, 1), (4, 4), (5, 2)], num_letters = 5\<rparr>
      = Some (Inr ''(2 5)(1 3)'')
   \<and> valid_permutation \<lparr>permutation = identity_dict 4, num_letters = 4\<rparr>
   \<and> get_cycle_notation ascending \<lparr>permutation = identity_dict 4, num_letters = 4\<rparr>
      = Some (Inr ''1'')"
proof -
  have m: "apply_dict [(1, 3), (2, 5), (3, 1), (4, 4), (5, 2)] 1 \<noteq> 1"
    by (simp add: apply_dict_def)
  then have ex: "\<exists>i. apply_dict [(1, 3), (2, 5), (3, 1), (4, 4), (5, 2)] i \<noteq> i" by blast
  have idf: "\<forall>i. apply_dict (identity_dict 4) i = i"
    by (simp add: apply_dict_def map_of_identity_dict)
  show ?thesis
    using cycle_notation_correct [OF valid_example5 set_iteration_ascending]
      cycle_notation_correct [OF valid_identity [of 4] set_iteration_ascending]
      ex idf m valid_example5 valid_identity [of 4] set_iteration_ascending
    by (simp add: spec_example5)
qed

section \<open>Cycle decomposition\<close>

lemma decomposition_for_discover:
  assumes "valid_permutation p"
    and "\<And>k. k \<in> set ks \<Longrightarrow> 1 \<le> k \<and> k \<le> int (num_letters p)"
    and "\<And>k. k \<in> set ks \<Longrightarrow> (k \<in> set upd) = (k \<notin> set seen)"
  shows "decomposition_for it p ks (upd, cl) =
           Some (Inr (set_difference upd (concat (discover (permutation p) ks seen)),
                      cl @ map (cycle_perm it (permutation p))
                             (filter (\<lambda>c. length c > 1) (discover (permutation p) ks seen))))"
  using assms(2,3)
proof (induction ks arbitrary: upd seen cl)
  case Nil
  then show ?case by (simp add: set_difference_def)
next
  case (Cons k ks)
  let ?d = "permutation p"
  show ?case
  proof (cases "k \<in> set upd")
    case False
    then have seen: "k \<in> set seen" using Cons.prems(2) [of k] by simp
    have "decomposition_for it p ks (upd, cl) =
           Some (Inr (set_difference upd (concat (discover ?d ks seen)),
                      cl @ map (cycle_perm it ?d)
                             (filter (\<lambda>c. length c > 1) (discover ?d ks seen))))"
      by (rule Cons.IH) (use Cons.prems in auto)
    then show ?thesis using False seen by simp
  next
    case True
    then have unseen: "k \<notin> set seen" using Cons.prems(2) [of k] by simp
    let ?c = "cycle_of ?d k"
    have fc: "find_cycle_dict p k = Some (Inr (cycle_items ?d ?c))"
      by (rule find_cycle_dict_cycle_of [OF assms(1)]) (use Cons.prems(1) [of k] in simp_all)
    have IH: "decomposition_for it p ks (set_difference upd ?c, cl') =
           Some (Inr (set_difference (set_difference upd ?c) (concat (discover ?d ks (seen @ ?c))),
                      cl' @ map (cycle_perm it ?d)
                              (filter (\<lambda>c. length c > 1) (discover ?d ks (seen @ ?c)))))" for cl'
      by (rule Cons.IH) (use Cons.prems in \<open>auto simp: set_difference_def\<close>)
    show ?thesis
      using True unseen
      by (simp add: fc IH cycle_items_keys set_difference_append cycle_items_length
          Permutation_init_def cycle_perm_def)
  qed
qed

lemma get_cycle_decomposition_valid:
  assumes "valid_permutation p" "set_iteration it"
  shows "get_cycle_decomposition it p =
           Some (Inr (map (cycle_perm it (permutation p))
                        (filter (\<lambda>c. length c > 1)
                           (discover (permutation p) (it (dict_keys (permutation p))) []))))"
proof -
  let ?d = "permutation p"
  let ?keys = "dict_keys ?d"
  let ?ks = "it ?keys"
  let ?cs = "discover ?d ?ks []"
  have bij: "is_bijection ?d" and n: "num_letters p = length ?d"
    using assms by (simp_all add: valid_permutation_def)
  have sks: "set ?ks = set ?keys" using assms(2) by (simp add: set_iteration_def)
  have rng: "\<And>k. k \<in> set ?ks \<Longrightarrow> 1 \<le> k \<and> k \<le> int (num_letters p)"
    using bij sks n by (simp add: is_bijection_def set_range1)
  have rel: "\<And>k. k \<in> set ?ks \<Longrightarrow> (k \<in> set ?keys) = (k \<notin> set [])"
    using sks by simp
  have loop: "decomposition_for it p ?ks (?keys, []) =
           Some (Inr (set_difference ?keys (concat ?cs),
                      [] @ map (cycle_perm it ?d) (filter (\<lambda>c. length c > 1) ?cs)))"
    by (rule decomposition_for_discover [OF assms(1) rng rel])
  have "set ?keys \<subseteq> set (concat ?cs)"
    using discover_covers [of ?ks "[]" ?d] sks by simp
  then have empty: "set_difference ?keys (concat ?cs) = []"
    by (auto simp: set_difference_def filter_empty_conv)
  show ?thesis
  proof (cases "?keys = []")
    case True
    then have "?ks = []" using sks by simp
    then show ?thesis using True
      unfolding get_cycle_decomposition_def
      by (subst decomposition_while.simps) simp
  next
    case False
    have second: "decomposition_while it p ?ks ([], cl) = Some (Inr cl)" for cl
      by (subst decomposition_while.simps) simp
    show ?thesis
      unfolding get_cycle_decomposition_def
      by (subst decomposition_while.simps) (use False in \<open>simp add: loop empty second\<close>)
  qed
qed

lemma fold_dict_set_new:
  "distinct xs \<Longrightarrow> set xs \<inter> set (map fst acc) = {} \<Longrightarrow>
   fold (\<lambda>i c. dict_set c i i) xs acc = acc @ map (\<lambda>i. (i, i)) xs"
proof (induction xs arbitrary: acc)
  case Nil
  then show ?case by simp
next
  case (Cons x xs)
  have new: "x \<notin> set (map fst acc)" using Cons.prems by auto
  have "set xs \<inter> set (map fst (acc @ [(x, x)])) = {}" using Cons.prems by auto
  moreover have "distinct xs" using Cons.prems by simp
  ultimately have "fold (\<lambda>i c. dict_set c i i) xs (acc @ [(x, x)]) = (acc @ [(x, x)]) @ map (\<lambda>i. (i, i)) xs"
    by (rule Cons.IH [rotated])
  then show ?case by (simp add: dict_set_new [OF new])
qed

lemma fill_fixed_eq:
  assumes "set_iteration it"
  shows "fill_fixed it d (cycle_items d c)
         = cycle_items d c @ map (\<lambda>i. (i, i)) (it (set_difference (dict_keys d) c))"
proof -
  let ?xs = "it (set_difference (dict_keys d) c)"
  have "distinct ?xs" and "set ?xs = set (set_difference (dict_keys d) c)"
    using assms by (simp_all add: set_iteration_def)
  then have "distinct ?xs" and "set ?xs \<inter> set (map fst (cycle_items d c)) = {}"
    by (auto simp: set_difference_def cycle_items_def)
  then show ?thesis
    by (simp add: fill_fixed_def cycle_items_keys fold_dict_set_new)
qed

lemma represents_length:
  assumes "represents n d h"
  shows "length d = n"
proof -
  have "distinct (map fst d)" and "set (map fst d) = {1 .. int n}"
    using assms by (simp_all add: represents_def wf_dict_def dict_keys_def)
  then have "length (map fst d) = card {1 .. int n}"
    using distinct_card [of "map fst d"] by simp
  then show ?thesis by simp
qed

lemma represents_valid:
  assumes "valid_permutation p"
  shows "represents (num_letters p) (permutation p) (apply_dict (permutation p))"
proof -
  let ?d = "permutation p"
  have bij: "is_bijection ?d" and n: "num_letters p = length ?d"
    using assms by (simp_all add: valid_permutation_def)
  show ?thesis
    using bij bijection_apply_range [OF bij]
    by (simp add: represents_def n is_bijection_def set_range1)
qed

lemma represents_identity: "represents n (identity_dict n) (\<lambda>i. i)"
  by (simp add: represents_def map_of_identity_dict wf_dict_def dict_keys_def identity_dict_eq
      comp_def distinct_range1 set_range1)

lemma represents_dict_eq:
  assumes "represents n d h" "represents n e h"
  shows "dict_eq d e"
proof -
  have len: "length d = length e"
    using represents_length [OF assms(1)] represents_length [OF assms(2)] by simp
  have "map_of e k = Some v" if kv: "(k, v) \<in> set d" for k v
  proof -
    have dk: "distinct (map fst d)" using assms(1) by (simp add: represents_def wf_dict_def)
    have "k \<in> set (dict_keys d)" using kv by (force simp: dict_keys_def)
    then have k: "1 \<le> k \<and> k \<le> int n" using assms(1) by (simp add: represents_def)
    have "map_of d k = Some v" using kv dk by simp
    then have "v = h k" using assms(1) k by (simp add: represents_def)
    then show ?thesis using assms(2) k by (simp add: represents_def)
  qed
  then show ?thesis using len by (auto simp: dict_eq_def list_all_iff)
qed

lemma Permutation_mul_represents:
  assumes "represents n (permutation a) F" "represents n (permutation b) G" "num_letters a = n"
  shows "\<exists>r. Permutation_mul a b = Inr r \<and> num_letters r = n
             \<and> represents n (permutation r) (\<lambda>i. F (G i))"
proof -
  let ?A = "permutation a" and ?B = "permutation b"
  have look: "\<exists>j v. map_of ?B i = Some j \<and> map_of ?A j = Some v" if "i \<in> set (range1 n)" for i
    using that assms(1,2) by (simp add: represents_def set_range1)
  let ?xs = "map (\<lambda>i. (i, apply_dict ?A (apply_dict ?B i))) (range1 n)"
  have items: "mul_items ?A ?B (range1 n) = Inr ?xs"
    using look by (rule mul_items_ok)
  have dk: "map fst ?xs = range1 n" by (simp add: comp_def)
  have dist: "distinct (map fst ?xs)" unfolding dk by (rule distinct_range1)
  let ?r = "\<lparr>permutation = ?xs, num_letters = n\<rparr>"
  have mul: "Permutation_mul a b = Inr ?r"
    using items assms(3)
    by (simp add: Permutation_mul_def Permutation_init_def dict_of_items_distinct [OF dist]
        length_range1)
  have val: "map_of ?xs i = Some (F (G i)) \<and> 1 \<le> F (G i) \<and> F (G i) \<le> int n"
    if i: "1 \<le> i \<and> i \<le> int n" for i
  proof -
    have mem: "i \<in> set (range1 n)" using i by (simp add: set_range1)
    have g: "map_of ?B i = Some (G i)" "1 \<le> G i \<and> G i \<le> int n"
      using assms(2) i by (simp_all add: represents_def)
    have f: "map_of ?A (G i) = Some (F (G i))" "1 \<le> F (G i) \<and> F (G i) \<le> int n"
      using assms(1) g(2) by (simp_all add: represents_def)
    have "map_of ?xs i = Some (apply_dict ?A (apply_dict ?B i))"
      using mem by (simp add: map_of_map_restrict restrict_map_def)
    then show ?thesis using g f by (simp add: apply_dict_def)
  qed
  have "represents n ?xs (\<lambda>i. F (G i))"
    unfolding represents_def wf_dict_def dict_keys_def dk
    using val by (simp add: distinct_range1 set_range1)
  then show ?thesis using mul by (intro exI [of _ ?r]) simp
qed

lemma cycle_perm_represents:
  assumes "is_bijection d" "set_iteration it" "cycle_ok (length d) d c"
  shows "represents (length d) (permutation (cycle_perm it d c)) (cycle_fun d c)"
proof -
  let ?n = "length d"
  let ?rest = "it (set_difference (dict_keys d) c)"
  let ?e = "cycle_items d c @ map (\<lambda>i. (i, i)) ?rest"
  have e: "permutation (cycle_perm it d c) = ?e"
    by (simp add: cycle_perm_def fill_fixed_eq [OF assms(2)])
  have keys: "set (dict_keys d) = {1 .. int ?n}"
    using assms(1) by (simp add: is_bijection_def set_range1)
  have c: "distinct c" "set c \<subseteq> {1 .. int ?n}" "\<And>x. x \<in> set c \<Longrightarrow> apply_dict d x \<in> set c"
    using assms(3) by (auto simp: cycle_ok_def)
  have rest: "distinct ?rest" "set ?rest = {1 .. int ?n} - set c"
    using assms(2) keys by (auto simp: set_iteration_def set_difference_def)
  have fst_e: "map fst ?e = c @ ?rest" by (simp add: cycle_items_def comp_def)
  have wf: "wf_dict ?e"
    unfolding wf_dict_def fst_e using c(1) rest by auto
  have "dict_keys ?e = c @ ?rest" by (simp add: dict_keys_def cycle_items_def comp_def)
  then have "set (dict_keys ?e) = set c \<union> set ?rest" by simp
  then have ks: "set (dict_keys ?e) = {1 .. int ?n}"
    using c(2) rest(2) by auto
  have val: "map_of ?e i = Some (cycle_fun d c i) \<and> 1 \<le> cycle_fun d c i \<and> cycle_fun d c i \<le> int ?n"
    if i: "1 \<le> i \<and> i \<le> int ?n" for i
  proof (cases "i \<in> set c")
    case True
    have "map_of (cycle_items d c) i = Some (apply_dict d i)"
      using True by (simp add: cycle_items_def map_of_map_restrict restrict_map_def)
    moreover have "apply_dict d i \<in> {1 .. int ?n}" using c(2,3) True by blast
    ultimately show ?thesis using True by (simp add: cycle_fun_def)
  next
    case False
    have none: "map_of (cycle_items d c) i = None"
      using False by (simp add: cycle_items_def map_of_map_restrict restrict_map_def)
    have "i \<in> set ?rest" using False i rest(2) by simp
    then have "map_of (map (\<lambda>i. (i, i)) ?rest) i = Some i"
      by (simp add: map_of_map_restrict restrict_map_def)
    then show ?thesis using none False i by (simp add: cycle_fun_def map_add_def)
  qed
  show ?thesis
    unfolding e represents_def using wf ks val by blast
qed

lemma cycle_perm_num_letters:
  assumes "is_bijection d" "set_iteration it" "cycle_ok (length d) d c"
  shows "num_letters (cycle_perm it d c) = length d"
  using represents_length [OF cycle_perm_represents [OF assms]] by (simp add: cycle_perm_def)

lemma cycle_fun_inj:
  assumes "is_bijection d" "cycle_ok (length d) d c"
  shows "inj_on (cycle_fun d c) {1 .. int (length d)}"
proof (rule inj_onI)
  fix x y assume x: "x \<in> {1 .. int (length d)}" and y: "y \<in> {1 .. int (length d)}"
    and eq: "cycle_fun d c x = cycle_fun d c y"
  have cl: "\<And>z. z \<in> set c \<Longrightarrow> apply_dict d z \<in> set c"
    using assms(2) by (simp add: cycle_ok_def)
  show "x = y"
  proof (cases "x \<in> set c")
    case True
    then have fx: "cycle_fun d c x = apply_dict d x" "apply_dict d x \<in> set c"
      using cl by (simp_all add: cycle_fun_def)
    have "y \<in> set c"
    proof (rule ccontr)
      assume "y \<notin> set c"
      then have "cycle_fun d c y = y" by (simp add: cycle_fun_def)
      then show False using eq fx \<open>y \<notin> set c\<close> by simp
    qed
    then have "apply_dict d x = apply_dict d y" using eq True by (simp add: cycle_fun_def)
    then show ?thesis using bijection_apply_inj [OF assms(1)] x y by simp
  next
    case False
    then have fx: "cycle_fun d c x = x" by (simp add: cycle_fun_def)
    have "y \<notin> set c"
    proof
      assume yc: "y \<in> set c"
      then have "cycle_fun d c y \<in> set c" using cl by (simp add: cycle_fun_def)
      then show False using eq fx False by simp
    qed
    then show ?thesis using eq fx by (simp add: cycle_fun_def)
  qed
qed

lemma represents_inj_valid:
  assumes "represents n e h" "inj_on h {1 .. int n}" "num_letters c = n" "permutation c = e"
  shows "valid_permutation c"
proof -
  have len: "length e = n" by (rule represents_length [OF assms(1)])
  have wf: "wf_dict e" and ks: "set (dict_keys e) = {1 .. int n}"
    and val: "\<And>i. 1 \<le> i \<and> i \<le> int n \<Longrightarrow> map_of e i = Some (h i) \<and> 1 \<le> h i \<and> h i \<le> int n"
    using assms(1) by (simp_all add: represents_def)
  have sub: "h ` {1 .. int n} \<subseteq> {1 .. int n}" using val by auto
  have surj: "h ` {1 .. int n} = {1 .. int n}"
    by (rule endo_inj_surj [OF _ sub assms(2)]) simp
  have dk: "distinct (map fst e)" using wf by (simp add: wf_dict_def)
  have "set (dict_values e) = h ` {1 .. int n}"
  proof (rule set_eqI)
    fix v
    show "v \<in> set (dict_values e) \<longleftrightarrow> v \<in> h ` {1 .. int n}"
    proof
      assume "v \<in> set (dict_values e)"
      then obtain k where kv: "(k, v) \<in> set e" by (auto simp: dict_values_def)
      then have "k \<in> set (dict_keys e)" by (force simp: dict_keys_def)
      then have k: "1 \<le> k \<and> k \<le> int n" using ks by simp
      have "map_of e k = Some v" using kv dk by simp
      then have "v = h k" using val [OF k] by simp
      then show "v \<in> h ` {1 .. int n}" using k by simp
    next
      assume "v \<in> h ` {1 .. int n}"
      then obtain k where k: "1 \<le> k \<and> k \<le> int n" "v = h k" by auto
      then have "map_of e k = Some v" using val by simp
      then have "(k, v) \<in> set e" by (rule map_of_SomeD)
      then show "v \<in> set (dict_values e)" by (force simp: dict_values_def)
    qed
  qed
  then have "set (dict_values e) = {1 .. int n}" using surj by simp
  then show ?thesis
    using wf ks len assms(3,4) by (simp add: valid_permutation_def is_bijection_def set_range1)
qed

lemma reduce_from_cycles:
  assumes "is_bijection d" "set_iteration it"
    and "represents (length d) (permutation acc) (\<lambda>x. if x \<in> U then apply_dict d x else x)"
    and "num_letters acc = length d"
    and "\<And>c. c \<in> set cs \<Longrightarrow> cycle_ok (length d) d c"
    and "distinct (concat cs)" "set (concat cs) \<inter> U = {}"
  shows "\<exists>r. reduce_from acc (map (cycle_perm it d) cs) = Inr r \<and> num_letters r = length d
             \<and> represents (length d) (permutation r)
                  (\<lambda>x. if x \<in> U \<union> set (concat cs) then apply_dict d x else x)"
  using assms(3-7)
proof (induction cs arbitrary: acc U)
  case Nil
  then show ?case by simp
next
  case (Cons c cs)
  let ?n = "length d"
  have ok: "cycle_ok ?n d c" using Cons.prems(3) by simp
  have cl: "\<And>x. x \<in> set c \<Longrightarrow> apply_dict d x \<in> set c"
    using ok by (simp add: cycle_ok_def)
  have disj: "set c \<inter> U = {}" using Cons.prems(5) by auto
  obtain r where r: "Permutation_mul acc (cycle_perm it d c) = Inr r" "num_letters r = ?n"
    "represents ?n (permutation r)
       (\<lambda>i. (\<lambda>x. if x \<in> U then apply_dict d x else x) (cycle_fun d c i))"
    using Permutation_mul_represents [OF Cons.prems(1) cycle_perm_represents [OF assms(1,2) ok]
        Cons.prems(2)] by blast
  have fn: "(\<lambda>i. (\<lambda>x. if x \<in> U then apply_dict d x else x) (cycle_fun d c i))
            = (\<lambda>x. if x \<in> U \<union> set c then apply_dict d x else x)"
  proof
    fix i
    show "(\<lambda>x. if x \<in> U then apply_dict d x else x) (cycle_fun d c i)
          = (if i \<in> U \<union> set c then apply_dict d i else i)"
    proof (cases "i \<in> set c")
      case True
      then have "apply_dict d i \<in> set c" by (rule cl)
      then have "apply_dict d i \<notin> U" using disj by auto
      then show ?thesis using True by (simp add: cycle_fun_def)
    next
      case False
      then show ?thesis by (simp add: cycle_fun_def)
    qed
  qed
  have rep: "represents ?n (permutation r) (\<lambda>x. if x \<in> U \<union> set c then apply_dict d x else x)"
    using r(3) unfolding fn .
  have "\<exists>r'. reduce_from r (map (cycle_perm it d) cs) = Inr r' \<and> num_letters r' = ?n
             \<and> represents ?n (permutation r')
                  (\<lambda>x. if x \<in> (U \<union> set c) \<union> set (concat cs) then apply_dict d x else x)"
    by (rule Cons.IH [OF rep r(2)]) (use Cons.prems in auto)
  then obtain r' where r': "reduce_from r (map (cycle_perm it d) cs) = Inr r'" "num_letters r' = ?n"
    "represents ?n (permutation r')
       (\<lambda>x. if x \<in> (U \<union> set c) \<union> set (concat cs) then apply_dict d x else x)" by blast
  have "(U \<union> set c) \<union> set (concat cs) = U \<union> set (concat (c # cs))" by auto
  then show ?case using r(1) r' by simp
qed

lemma in_orbit_iff: "x \<in> set (orbit d k m) \<longleftrightarrow> (\<exists>i<m. x = (apply_dict d ^^ i) k)"
  by (auto simp: orbit_def)

lemma cycle_of_ok:
  assumes "is_bijection d" "1 \<le> k" "k \<le> int (length d)"
  shows "cycle_ok (length d) d (cycle_of d k)"
proof -
  let ?m = "period d k"
  have co: "cycle_of d k = orbit d k ?m" by (rule cycle_of_orbit [OF assms])
  have dist: "distinct (orbit d k ?m)" by (rule orbit_distinct_list [OF assms]) simp
  have m: "0 < ?m" by (rule period_props(1) [OF assms])
  have "1 \<le> x \<and> x \<le> int (length d) \<and> apply_dict d x \<in> set (orbit d k ?m)"
    if xin: "x \<in> set (orbit d k ?m)" for x
  proof -
    obtain i where i: "i < ?m" "x = (apply_dict d ^^ i) k"
      using xin unfolding in_orbit_iff by blast
    have rng: "1 \<le> x \<and> x \<le> int (length d)"
      using orbit_in_range [OF assms, of i] i by simp
    have "apply_dict d x = (apply_dict d ^^ Suc i) k" using i by simp
    moreover have "(apply_dict d ^^ Suc i) k \<in> set (orbit d k ?m)"
    proof (cases "Suc i < ?m")
      case True
      then show ?thesis unfolding in_orbit_iff by blast
    next
      case False
      then have "Suc i = ?m" using i by simp
      then have "(apply_dict d ^^ Suc i) k = (apply_dict d ^^ 0) k"
        using period_props(2) [OF assms] by simp
      then show ?thesis unfolding in_orbit_iff using m by blast
    qed
    ultimately show ?thesis using rng by simp
  qed
  then show ?thesis using dist by (simp add: cycle_ok_def co)
qed

lemma closed_funpow:
  assumes "\<And>x. x \<in> S \<Longrightarrow> f x \<in> S" "x \<in> S"
  shows "(f ^^ j) x \<in> S"
  by (induction j) (use assms in auto)

lemma cycle_of_disjoint_seen:
  assumes "is_bijection d" "1 \<le> k" "k \<le> int (length d)"
    and "\<And>x. x \<in> set seen \<Longrightarrow> apply_dict d x \<in> set seen" "k \<notin> set seen"
  shows "set (cycle_of d k) \<inter> set seen = {}"
proof -
  let ?m = "period d k"
  have False if xin: "x \<in> set (orbit d k ?m)" and xs: "x \<in> set seen" for x
  proof -
    obtain i where i: "i < ?m" "x = (apply_dict d ^^ i) k"
      using xin unfolding in_orbit_iff by blast
    have "(apply_dict d ^^ (?m - i)) x \<in> set seen"
      by (rule closed_funpow [OF assms(4) xs])
    moreover have "(apply_dict d ^^ (?m - i)) x = (apply_dict d ^^ ((?m - i) + i)) k"
      unfolding i(2) by (simp add: funpow_add)
    moreover have "(?m - i) + i = ?m" using i by simp
    ultimately have "(apply_dict d ^^ ?m) k \<in> set seen" by simp
    then show False using period_props(2) [OF assms(1-3)] assms(5) by simp
  qed
  then show ?thesis using cycle_of_orbit [OF assms(1-3)] by auto
qed

lemma discover_elems:
  "c \<in> set (discover d ks seen) \<Longrightarrow> \<exists>k \<in> set ks. c = cycle_of d k"
  by (induction ks arbitrary: seen) (auto split: if_splits)

lemma discover_cycles:
  assumes "is_bijection d"
    and "\<And>k. k \<in> set ks \<Longrightarrow> 1 \<le> k \<and> k \<le> int (length d)"
    and "\<And>x. x \<in> set seen \<Longrightarrow> apply_dict d x \<in> set seen"
  shows "distinct (concat (discover d ks seen)) \<and> set (concat (discover d ks seen)) \<inter> set seen = {}"
  using assms(2,3)
proof (induction ks arbitrary: seen)
  case Nil
  then show ?case by simp
next
  case (Cons k ks)
  show ?case
  proof (cases "k \<in> set seen")
    case True
    have "distinct (concat (discover d ks seen)) \<and> set (concat (discover d ks seen)) \<inter> set seen = {}"
      by (rule Cons.IH) (use Cons.prems in auto)
    then show ?thesis using True by simp
  next
    case False
    let ?c = "cycle_of d k"
    have k: "1 \<le> k" "k \<le> int (length d)" using Cons.prems(1) [of k] by simp_all
    have ok: "cycle_ok (length d) d ?c" by (rule cycle_of_ok [OF assms(1) k])
    have dj: "set ?c \<inter> set seen = {}"
      by (rule cycle_of_disjoint_seen [OF assms(1) k Cons.prems(2) False])
    have closed: "\<And>x. x \<in> set (seen @ ?c) \<Longrightarrow> apply_dict d x \<in> set (seen @ ?c)"
      using Cons.prems(2) ok by (auto simp: cycle_ok_def)
    have IH: "distinct (concat (discover d ks (seen @ ?c)))
              \<and> set (concat (discover d ks (seen @ ?c))) \<inter> set (seen @ ?c) = {}"
      by (rule Cons.IH [OF _ closed]) (use Cons.prems(1) in auto)
    have "distinct ?c" using ok by (simp add: cycle_ok_def)
    then show ?thesis using False IH dj by auto
  qed
qed

lemma distinct_concat_filter:
  "distinct (concat cs) \<Longrightarrow> distinct (concat (filter P cs))"
  by (induction cs) auto

lemma cycle_of_fixed: "apply_dict d k = k \<Longrightarrow> cycle_of d k = [k]"
  by (cases "length d") (simp_all add: cycle_of_def)

lemma cycle_ok_nontrivial:
  assumes "cycle_ok n d c" "x \<in> set c" "apply_dict d x \<noteq> x"
  shows "length c > 1"
proof (rule ccontr)
  assume "\<not> length c > 1"
  then have "length c \<le> 1" by simp
  then obtain y where "c = [y]" using assms(2) by (cases c) auto
  then show False using assms by (auto simp: cycle_ok_def)
qed

lemma represents_cong:
  "represents n e h \<Longrightarrow> (\<And>i. 1 \<le> i \<and> i \<le> int n \<Longrightarrow> h i = h' i) \<Longrightarrow> represents n e h'"
  by (simp add: represents_def)

lemma represents_apply_dict:
  assumes "represents n e (cycle_fun d c)" "set c \<subseteq> {1 .. int n}"
  shows "apply_dict e x = cycle_fun d c x"
proof (cases "1 \<le> x \<and> x \<le> int n")
  case True
  then show ?thesis using assms(1) by (simp add: represents_def apply_dict_def)
next
  case False
  then have "x \<notin> set (dict_keys e)" using assms(1) by (auto simp: represents_def)
  then have "map_of e x = None" by (simp add: dict_keys_def map_of_eq_None_iff)
  moreover have "x \<notin> set c" using False assms(2) by auto
  ultimately show ?thesis by (simp add: apply_dict_def cycle_fun_def)
qed

lemma nontrivial_cycles_props:
  assumes "is_bijection d" "set_iteration it"
  shows "\<And>c. c \<in> set (nontrivial_cycles it d) \<Longrightarrow>
           cycle_ok (length d) d c \<and> length c > 1 \<and> (\<exists>k. c = cycle_of d k)"
    and "distinct (concat (nontrivial_cycles it d))"
    and "\<And>x. 1 \<le> x \<and> x \<le> int (length d) \<Longrightarrow> apply_dict d x \<noteq> x \<Longrightarrow>
           x \<in> set (concat (nontrivial_cycles it d))"
proof -
  let ?ks = "it (dict_keys d)"
  have sks: "set ?ks = {1 .. int (length d)}"
    using assms by (simp add: set_iteration_def is_bijection_def set_range1)
  have rng: "\<And>k. k \<in> set ?ks \<Longrightarrow> 1 \<le> k \<and> k \<le> int (length d)" using sks by simp
  have all_ok: "cycle_ok (length d) d c \<and> (\<exists>k. c = cycle_of d k)"
    if cin: "c \<in> set (discover d ?ks [])" for c
  proof -
    obtain k where k: "k \<in> set ?ks" "c = cycle_of d k"
      using discover_elems [OF cin] by blast
    then show ?thesis using cycle_of_ok [OF assms(1)] rng by blast
  qed
  show "cycle_ok (length d) d c \<and> length c > 1 \<and> (\<exists>k. c = cycle_of d k)"
    if "c \<in> set (nontrivial_cycles it d)" for c
    using that all_ok by (simp add: nontrivial_cycles_def)
  have "distinct (concat (discover d ?ks [])) \<and> set (concat (discover d ?ks [])) \<inter> set [] = {}"
    by (rule discover_cycles [OF assms(1) rng]) simp_all
  then have "distinct (concat (discover d ?ks []))" by simp
  then show "distinct (concat (nontrivial_cycles it d))"
    unfolding nontrivial_cycles_def by (rule distinct_concat_filter)
  show "x \<in> set (concat (nontrivial_cycles it d))"
    if x: "1 \<le> x \<and> x \<le> int (length d)" and mv: "apply_dict d x \<noteq> x" for x
  proof -
    have "x \<in> set (concat (discover d ?ks []))"
      using discover_covers [of ?ks "[]" d] sks x by auto
    then obtain c where c: "c \<in> set (discover d ?ks [])" "x \<in> set c" by auto
    have "length c > 1"
      using cycle_ok_nontrivial [OF _ c(2) mv] all_ok [OF c(1)] by blast
    then show ?thesis using c by (auto simp: nontrivial_cycles_def)
  qed
qed

lemma product_of_cycles:
  assumes "valid_permutation p" "set_iteration it"
  shows "\<exists>r. reduce_from \<lparr>permutation = identity_dict (num_letters p), num_letters = num_letters p\<rparr>
               (map (cycle_perm it (permutation p)) (nontrivial_cycles it (permutation p))) = Inr r
             \<and> Permutation_eq r p"
proof -
  let ?d = "permutation p"
  let ?cs = "nontrivial_cycles it ?d"
  have bij: "is_bijection ?d" and n: "num_letters p = length ?d"
    using assms by (simp_all add: valid_permutation_def)
  note props = nontrivial_cycles_props [OF bij assms(2)]
  let ?id = "\<lparr>permutation = identity_dict (length ?d), num_letters = length ?d\<rparr>"
  have rep0: "represents (length ?d) (permutation ?id) (\<lambda>x. if x \<in> {} then apply_dict ?d x else x)"
    using represents_identity [of "length ?d"] by simp
  obtain r where r: "reduce_from ?id (map (cycle_perm it ?d) ?cs) = Inr r"
    "represents (length ?d) (permutation r)
        (\<lambda>x. if x \<in> {} \<union> set (concat ?cs) then apply_dict ?d x else x)"
    using reduce_from_cycles [OF bij assms(2) rep0 _ _ props(2)] props(1) by auto
  have "represents (length ?d) (permutation r) (apply_dict ?d)"
  proof (rule represents_cong [OF r(2)])
    fix i assume i: "1 \<le> i \<and> i \<le> int (length ?d)"
    show "(if i \<in> {} \<union> set (concat ?cs) then apply_dict ?d i else i) = apply_dict ?d i"
    proof (cases "apply_dict ?d i = i")
      case True
      then show ?thesis by simp
    next
      case False
      then have "i \<in> set (concat ?cs)" using props(3) [OF i] by simp
      then show ?thesis by simp
    qed
  qed
  then have "dict_eq (permutation r) ?d"
    using represents_valid [OF assms(1)] n by (intro represents_dict_eq) simp_all
  then show ?thesis using r(1) n by (auto simp: Permutation_eq_def)
qed

lemma reduce_of_cycles:
  assumes "valid_permutation p" "set_iteration it" "nontrivial_cycles it (permutation p) \<noteq> []"
  shows "\<exists>r. reduce_mul (map (cycle_perm it (permutation p)) (nontrivial_cycles it (permutation p)))
               = Inr r \<and> Permutation_eq r p"
proof -
  let ?d = "permutation p"
  have bij: "is_bijection ?d" and n: "num_letters p = length ?d"
    using assms by (simp_all add: valid_permutation_def)
  note props = nontrivial_cycles_props [OF bij assms(2)]
  obtain c cs where cs: "nontrivial_cycles it ?d = c # cs"
    using assms(3) by (cases "nontrivial_cycles it ?d") auto
  have ok: "cycle_ok (length ?d) ?d c" using props(1) [of c] cs by simp
  have rep0: "represents (length ?d) (permutation (cycle_perm it ?d c))
                (\<lambda>x. if x \<in> set c then apply_dict ?d x else x)"
    using cycle_perm_represents [OF bij assms(2) ok] by (simp add: cycle_fun_def [abs_def])
  have nl: "num_letters (cycle_perm it ?d c) = length ?d"
    by (rule cycle_perm_num_letters [OF bij assms(2) ok])
  have rest_ok: "\<And>c'. c' \<in> set cs \<Longrightarrow> cycle_ok (length ?d) ?d c'"
    using props(1) cs by simp
  have dist: "distinct (concat cs)" and disj: "set (concat cs) \<inter> set c = {}"
    using props(2) cs by auto
  obtain r where r: "reduce_from (cycle_perm it ?d c) (map (cycle_perm it ?d) cs) = Inr r"
    "represents (length ?d) (permutation r)
        (\<lambda>x. if x \<in> set c \<union> set (concat cs) then apply_dict ?d x else x)"
    using reduce_from_cycles [OF bij assms(2) rep0 nl rest_ok dist disj] by auto
  have un: "set c \<union> set (concat cs) = set (concat (nontrivial_cycles it ?d))" using cs by simp
  have "represents (length ?d) (permutation r) (apply_dict ?d)"
  proof (rule represents_cong [OF r(2)])
    fix i assume i: "1 \<le> i \<and> i \<le> int (length ?d)"
    show "(if i \<in> set c \<union> set (concat cs) then apply_dict ?d i else i) = apply_dict ?d i"
    proof (cases "apply_dict ?d i = i")
      case True
      then show ?thesis by simp
    next
      case False
      then have "i \<in> set c \<union> set (concat cs)" using props(3) [OF i] un by simp
      then show ?thesis by simp
    qed
  qed
  then have "dict_eq (permutation r) ?d"
    using represents_valid [OF assms(1)] n by (intro represents_dict_eq) simp_all
  then show ?thesis using r(1) cs by (auto simp: Permutation_eq_def reduce_mul_def)
qed

lemma cycle_factor_props:
  assumes "valid_permutation p" "set_iteration it" "c \<in> set (nontrivial_cycles it (permutation p))"
  shows "valid_permutation (cycle_perm it (permutation p) c)
         \<and> num_letters (cycle_perm it (permutation p) c) = num_letters p
         \<and> (\<exists>k. length (cycle_of (permutation p) k) > 1
                \<and> (\<forall>x. apply_dict (permutation (cycle_perm it (permutation p) c)) x
                        = (if x \<in> set (cycle_of (permutation p) k)
                           then apply_dict (permutation p) x else x)))"
proof -
  let ?d = "permutation p"
  have bij: "is_bijection ?d" and n: "num_letters p = length ?d"
    using assms by (simp_all add: valid_permutation_def)
  note props = nontrivial_cycles_props(1) [OF bij assms(2) assms(3)]
  have ok: "cycle_ok (length ?d) ?d c" using props by simp
  obtain k where k: "c = cycle_of ?d k" using props by blast
  have rep: "represents (length ?d) (permutation (cycle_perm it ?d c)) (cycle_fun ?d c)"
    by (rule cycle_perm_represents [OF bij assms(2) ok])
  have nl: "num_letters (cycle_perm it ?d c) = length ?d"
    by (rule cycle_perm_num_letters [OF bij assms(2) ok])
  have valid: "valid_permutation (cycle_perm it ?d c)"
    by (rule represents_inj_valid [OF rep cycle_fun_inj [OF bij ok] nl refl])
  have sub: "set c \<subseteq> {1 .. int (length ?d)}" using ok by (auto simp: cycle_ok_def)
  have "\<forall>x. apply_dict (permutation (cycle_perm it ?d c)) x
            = (if x \<in> set (cycle_of ?d k) then apply_dict ?d x else x)"
    using represents_apply_dict [OF rep sub] k by (simp add: cycle_fun_def)
  moreover have "length (cycle_of ?d k) > 1" using props k by simp
  ultimately show ?thesis using valid nl n by auto
qed

lemma identity_no_cycles:
  assumes "\<forall>i. apply_dict d i = i"
  shows "nontrivial_cycles it d = []"
proof -
  have "\<not> 1 < length c" if cin: "c \<in> set (discover d (it (dict_keys d)) [])" for c
  proof -
    obtain k where "c = cycle_of d k" using discover_elems [OF cin] by blast
    then show ?thesis using cycle_of_fixed [of d k] assms by simp
  qed
  then show ?thesis unfolding nontrivial_cycles_def filter_empty_conv by blast
qed

text \<open>
  C5.  For a valid permutation \<open>p\<close> of degree \<open>n\<close>, whatever the iteration order
  of sets, \<^verbatim>\<open>get_cycle_decomposition\<close> returns a list of permutations such that:
  each is a valid permutation of degree \<open>n\<close> that acts as \<open>p\<close> on one cycle of
  \<open>p\<close> of length above one and fixes every other point; their product, taken from
  the identity by \<^verbatim>\<open>__mul__\<close> in list order, is equal to \<open>p\<close>, and so is their
  \<^verbatim>\<open>reduce\<close> product when the list is not empty; and the list is empty when \<open>p\<close>
  fixes every point.
\<close>

theorem cycle_decomposition_reconstructs:
  assumes "valid_permutation p" "set_iteration it"
  shows "\<exists>cs. get_cycle_decomposition it p = Some (Inr cs)
           \<and> list_all (\<lambda>c. valid_permutation c \<and> num_letters c = num_letters p
                  \<and> (\<exists>k. length (cycle_of (permutation p) k) > 1
                         \<and> (\<forall>x. apply_dict (permutation c) x
                                 = (if x \<in> set (cycle_of (permutation p) k)
                                    then apply_dict (permutation p) x else x)))) cs
           \<and> (\<exists>r. reduce_from \<lparr>permutation = identity_dict (num_letters p),
                                 num_letters = num_letters p\<rparr> cs = Inr r
                    \<and> Permutation_eq r p)
           \<and> (cs \<noteq> [] \<longrightarrow> (\<exists>r. reduce_mul cs = Inr r \<and> Permutation_eq r p))
           \<and> ((\<forall>i. apply_dict (permutation p) i = i) \<longrightarrow> cs = [])"
proof -
  let ?d = "permutation p"
  let ?cs = "map (cycle_perm it ?d) (nontrivial_cycles it ?d)"
  have dec: "get_cycle_decomposition it p = Some (Inr ?cs)"
    using get_cycle_decomposition_valid [OF assms] by (simp add: nontrivial_cycles_def)
  have factors: "list_all (\<lambda>c. valid_permutation c \<and> num_letters c = num_letters p
                  \<and> (\<exists>k. length (cycle_of ?d k) > 1
                         \<and> (\<forall>x. apply_dict (permutation c) x
                                 = (if x \<in> set (cycle_of ?d k) then apply_dict ?d x else x)))) ?cs"
    unfolding list_all_iff using cycle_factor_props [OF assms] by auto
  have prod: "\<exists>r. reduce_from \<lparr>permutation = identity_dict (num_letters p),
                                 num_letters = num_letters p\<rparr> ?cs = Inr r
                    \<and> Permutation_eq r p"
    by (rule product_of_cycles [OF assms])
  have red: "?cs \<noteq> [] \<longrightarrow> (\<exists>r. reduce_mul ?cs = Inr r \<and> Permutation_eq r p)"
    using reduce_of_cycles [OF assms] by simp
  have idn: "(\<forall>i. apply_dict ?d i = i) \<longrightarrow> ?cs = []"
    using identity_no_cycles [of ?d it] by simp
  show ?thesis
    using dec factors prod red idn by blast
qed

lemma example5_decomposition:
  "get_cycle_decomposition ascending
     \<lparr>permutation = [(1, 3), (2, 5), (3, 1), (4, 4), (5, 2)], num_letters = 5\<rparr>
   = Some (Inr [\<lparr>permutation = [(1, 3), (3, 1), (2, 2), (4, 4), (5, 5)], num_letters = 5\<rparr>,
                \<lparr>permutation = [(2, 5), (5, 2), (1, 1), (3, 3), (4, 4)], num_letters = 5\<rparr>])"
proof -
  have "map (cycle_perm ascending [(1, 3), (2, 5), (3, 1), (4, 4), (5, 2)])
          (filter (\<lambda>c. length c > 1)
             (discover [(1, 3), (2, 5), (3, 1), (4, 4), (5, 2)]
                (ascending (dict_keys [(1, 3), (2, 5), (3, 1), (4, 4), (5, 2)])) []))
        = [\<lparr>permutation = [(1, 3), (3, 1), (2, 2), (4, 4), (5, 5)], num_letters = 5\<rparr>,
           \<lparr>permutation = [(2, 5), (5, 2), (1, 1), (3, 3), (4, 4)], num_letters = 5\<rparr>]"
    by code_simp
  then show ?thesis
    using get_cycle_decomposition_valid [OF valid_example5 set_iteration_ascending] by simp
qed

theorem cycle_decomposition_reconstructs_witness:
  "valid_permutation \<lparr>permutation = [(1, 3), (2, 5), (3, 1), (4, 4), (5, 2)], num_letters = 5\<rparr>
   \<and> set_iteration ascending
   \<and> get_cycle_decomposition ascending
        \<lparr>permutation = [(1, 3), (2, 5), (3, 1), (4, 4), (5, 2)], num_letters = 5\<rparr>
      = Some (Inr [\<lparr>permutation = [(1, 3), (3, 1), (2, 2), (4, 4), (5, 5)], num_letters = 5\<rparr>,
                   \<lparr>permutation = [(2, 5), (5, 2), (1, 1), (3, 3), (4, 4)], num_letters = 5\<rparr>])
   \<and> (\<exists>r. reduce_mul [\<lparr>permutation = [(1, 3), (3, 1), (2, 2), (4, 4), (5, 5)], num_letters = 5\<rparr>,
                        \<lparr>permutation = [(2, 5), (5, 2), (1, 1), (3, 3), (4, 4)], num_letters = 5\<rparr>]
              = Inr r
            \<and> Permutation_eq r
                 \<lparr>permutation = [(1, 3), (2, 5), (3, 1), (4, 4), (5, 2)], num_letters = 5\<rparr>)"
proof -
  obtain cs where cs:
    "get_cycle_decomposition ascending
       \<lparr>permutation = [(1, 3), (2, 5), (3, 1), (4, 4), (5, 2)], num_letters = 5\<rparr> = Some (Inr cs)"
    "cs \<noteq> [] \<longrightarrow> (\<exists>r. reduce_mul cs = Inr r
        \<and> Permutation_eq r
             \<lparr>permutation = [(1, 3), (2, 5), (3, 1), (4, 4), (5, 2)], num_letters = 5\<rparr>)"
    using cycle_decomposition_reconstructs [OF valid_example5 set_iteration_ascending] by blast
  have "cs = [\<lparr>permutation = [(1, 3), (3, 1), (2, 2), (4, 4), (5, 5)], num_letters = 5\<rparr>,
              \<lparr>permutation = [(2, 5), (5, 2), (1, 1), (3, 3), (4, 4)], num_letters = 5\<rparr>]"
    using cs(1) example5_decomposition by simp
  then show ?thesis
    using cs valid_example5 set_iteration_ascending example5_decomposition by simp
qed

section \<open>Equal-order probability\<close>

lemma equal_order_pairs_iff:
  "S \<in> equal_order_pairs f xs \<longleftrightarrow> (\<exists>x y. S = {x, y} \<and> x \<in> set xs \<and> y \<in> set xs \<and> f x = f y)"
  by (auto simp: equal_order_pairs_def)

lemma finite_equal_order_pairs: "finite (equal_order_pairs f xs)"
proof -
  have "{(x, y). x \<in> set xs \<and> y \<in> set xs \<and> f x = f y} \<subseteq> set xs \<times> set xs" by auto
  then have "finite {(x, y). x \<in> set xs \<and> y \<in> set xs \<and> f x = f y}"
    by (rule finite_subset) simp
  then show ?thesis by (simp add: equal_order_pairs_def)
qed

lemma equal_order_pairs_Cons:
  "equal_order_pairs f (x # xs) =
     (\<lambda>y. {x, y}) ` {y \<in> set (x # xs). f x = f y} \<union> equal_order_pairs f xs"
proof (rule set_eqI)
  fix S
  show "S \<in> equal_order_pairs f (x # xs) \<longleftrightarrow>
        S \<in> (\<lambda>y. {x, y}) ` {y \<in> set (x # xs). f x = f y} \<union> equal_order_pairs f xs"
  proof
    assume "S \<in> equal_order_pairs f (x # xs)"
    then obtain a b where ab: "S = {a, b}" "a \<in> set (x # xs)" "b \<in> set (x # xs)" "f a = f b"
      unfolding equal_order_pairs_iff by blast
    show "S \<in> (\<lambda>y. {x, y}) ` {y \<in> set (x # xs). f x = f y} \<union> equal_order_pairs f xs"
    proof (cases "a = x")
      case True
      then have "S \<in> (\<lambda>y. {x, y}) ` {y \<in> set (x # xs). f x = f y}" using ab by blast
      then show ?thesis by simp
    next
      case False
      show ?thesis
      proof (cases "b = x")
        case True
        have "S = {x, a}" using ab True by auto
        moreover have "a \<in> set (x # xs)" "f x = f a" using ab True by simp_all
        ultimately have "S \<in> (\<lambda>y. {x, y}) ` {y \<in> set (x # xs). f x = f y}" by blast
        then show ?thesis by simp
      next
        case bx: False
        then have "a \<in> set xs" "b \<in> set xs" using ab False by simp_all
        then have "S \<in> equal_order_pairs f xs"
          unfolding equal_order_pairs_iff using ab by blast
        then show ?thesis by simp
      qed
    qed
  next
    assume "S \<in> (\<lambda>y. {x, y}) ` {y \<in> set (x # xs). f x = f y} \<union> equal_order_pairs f xs"
    then consider "S \<in> (\<lambda>y. {x, y}) ` {y \<in> set (x # xs). f x = f y}"
      | "S \<in> equal_order_pairs f xs" by blast
    then show "S \<in> equal_order_pairs f (x # xs)"
    proof cases
      case 1
      then obtain y where "S = {x, y}" "y \<in> set (x # xs)" "f x = f y" by blast
      then show ?thesis unfolding equal_order_pairs_iff by (intro exI [of _ x] exI [of _ y]) simp
    next
      case 2
      then obtain a b where "S = {a, b}" "a \<in> set xs" "b \<in> set xs" "f a = f b"
        unfolding equal_order_pairs_iff by blast
      then show ?thesis unfolding equal_order_pairs_iff by (intro exI [of _ a] exI [of _ b]) simp
    qed
  qed
qed

lemma card_pairs_with_head:
  assumes "distinct ys"
  shows "card ((\<lambda>y. {x, y}) ` {y \<in> set ys. f x = f y}) = length (filter (\<lambda>y. f x = f y) ys)"
proof -
  have inj: "inj_on (\<lambda>y. {x, y}) {y \<in> set ys. f x = f y}"
    by (rule inj_onI) (auto simp: doubleton_eq_iff)
  have "card ((\<lambda>y. {x, y}) ` {y \<in> set ys. f x = f y}) = card {y \<in> set ys. f x = f y}"
    by (rule card_image [OF inj])
  also have "{y \<in> set ys. f x = f y} = set (filter (\<lambda>y. f x = f y) ys)" by auto
  also have "card (set (filter (\<lambda>y. f x = f y) ys)) = length (filter (\<lambda>y. f x = f y) ys)"
    by (rule distinct_card) (use assms in simp)
  finally show ?thesis by simp
qed

lemma count_equal_order_pairs:
  assumes "distinct xs"
  shows "length (filter (\<lambda>pair. f (fst pair) = f (snd pair)) (combinations_with_replacement2 xs))
         = card (equal_order_pairs f xs)"
  using assms
proof (induction xs)
  case Nil
  then show ?case by (simp add: equal_order_pairs_def)
next
  case (Cons x xs)
  let ?A = "(\<lambda>y. {x, y}) ` {y \<in> set (x # xs). f x = f y}"
  have disj: "?A \<inter> equal_order_pairs f xs = {}"
  proof -
    have "x \<notin> S" if "S \<in> equal_order_pairs f xs" for S
      using that Cons.prems unfolding equal_order_pairs_iff by auto
    moreover have "x \<in> S" if "S \<in> ?A" for S using that by auto
    ultimately show ?thesis by blast
  qed
  have finA: "finite ?A" by simp
  have "card (equal_order_pairs f (x # xs)) = card ?A + card (equal_order_pairs f xs)"
    unfolding equal_order_pairs_Cons
    by (rule card_Un_disjoint [OF finA finite_equal_order_pairs disj])
  also have "card ?A = length (filter (\<lambda>y. f x = f y) (x # xs))"
    by (rule card_pairs_with_head [OF Cons.prems])
  also have "card (equal_order_pairs f xs)
             = length (filter (\<lambda>pair. f (fst pair) = f (snd pair)) (combinations_with_replacement2 xs))"
    using Cons.IH Cons.prems by simp
  finally show ?case
    by (simp add: filter_map comp_def)
qed

subsection \<open>The float of the quotient\<close>

lemma bit_length_nonneg: "0 \<le> bit_length n"
  by (induction n rule: bit_length.induct) (subst bit_length.simps, simp)

lemma bit_length_mono: "a \<le> b \<Longrightarrow> bit_length a \<le> bit_length b"
proof (induction b arbitrary: a rule: bit_length.induct)
  case (1 b)
  show ?case
  proof (cases "a \<le> 0")
    case True
    then have "bit_length a = 0" by (subst bit_length.simps) simp
    then show ?thesis using bit_length_nonneg [of b] by simp
  next
    case False
    then have b: "\<not> b \<le> 0" using "1.prems" by simp
    have "a div 2 \<le> b div 2" using "1.prems" by (rule zdiv_mono1) simp
    then have "bit_length (a div 2) \<le> bit_length (b div 2)" by (rule "1.IH" [OF b])
    moreover have "bit_length a = 1 + bit_length (a div 2)"
      using False by (subst bit_length.simps) simp
    moreover have "bit_length b = 1 + bit_length (b div 2)"
      using b by (subst bit_length.simps) simp
    ultimately show ?thesis by simp
  qed
qed

lemma pow2_pos: "0 < pow2 e"
  by (simp add: pow2_def)

lemma pow2_small: "e \<le> - 52 \<Longrightarrow> pow2 e \<le> 1 / 2 ^ 52"
proof -
  assume e: "e \<le> - 52"
  then have "52 \<le> nat (- e)" by simp
  then have "(2 :: rat) ^ 52 \<le> 2 ^ nat (- e)" by (intro power_increasing) simp_all
  then have "1 / (2 :: rat) ^ nat (- e) \<le> 1 / 2 ^ 52" by (intro divide_left_mono) simp_all
  then show ?thesis using e by (simp add: pow2_def)
qed

lemma round_half_even_near: "\<bar>of_int (round_half_even y) - y\<bar> \<le> 1 / 2"
proof -
  let ?f = "\<lfloor>y\<rfloor>"
  have lo: "of_int ?f \<le> y" and hi: "y < of_int ?f + 1" by linarith+
  show ?thesis
    using lo hi by (auto simp: round_half_even_def Let_def abs_le_iff)
qed

lemma true_divide_fraction:
  assumes "0 \<le> a" "a \<le> b" "0 < b"
  shows "\<exists>v. true_divide a b = Inr v \<and> \<bar>v - of_int a / of_int b\<bar> \<le> 1 / 2 ^ 53"
proof (cases "a = 0")
  case True
  then show ?thesis using assms(3) by (simp add: true_divide_def)
next
  case False
  then have a: "0 < a" using assms(1) by simp
  define x :: rat where "x = of_int a / of_int b"
  have x: "0 < x" "x \<le> 1" using a assms by (simp_all add: x_def)
  define d where "d = bit_length \<bar>a\<bar> - bit_length \<bar>b\<bar>"
  define l where "l = (if pow2 d \<le> \<bar>x\<bar> then d else d - 1)"
  define e where "e = max (l - 52) (- 1074)"
  define v where "v = of_int (round_half_even (\<bar>x\<bar> / pow2 e)) * pow2 e"
  have "d \<le> 0" using bit_length_mono [of "\<bar>a\<bar>" "\<bar>b\<bar>"] assms by (simp add: d_def)
  then have "l \<le> 0" by (simp add: l_def)
  then have e: "e \<le> - 52" by (simp add: e_def)
  have pe: "0 < pow2 e" by (rule pow2_pos)
  have small: "pow2 e \<le> 1 / 2 ^ 52" by (rule pow2_small [OF e])
  have "\<bar>v - \<bar>x\<bar>\<bar> = \<bar>of_int (round_half_even (\<bar>x\<bar> / pow2 e)) - \<bar>x\<bar> / pow2 e\<bar> * pow2 e"
  proof -
    have "v - \<bar>x\<bar> = (of_int (round_half_even (\<bar>x\<bar> / pow2 e)) - \<bar>x\<bar> / pow2 e) * pow2 e"
      using pe by (simp add: v_def left_diff_distrib)
    then show ?thesis using pe by (simp add: abs_mult)
  qed
  also have "\<dots> \<le> (1 / 2) * pow2 e"
    using pe round_half_even_near [of "\<bar>x\<bar> / pow2 e"] by (intro mult_right_mono) simp_all
  also have "\<dots> \<le> (1 / 2) * (1 / 2 ^ 52)" using small by simp
  finally have near: "\<bar>v - \<bar>x\<bar>\<bar> \<le> 1 / 2 ^ 53" by simp
  have ax: "\<bar>x\<bar> = x" using x by simp
  have "v - \<bar>x\<bar> \<le> \<bar>v - \<bar>x\<bar>\<bar>" by (rule abs_ge_self)
  then have "v \<le> x + 1 / 2 ^ 53" using near ax by linarith
  also have "\<dots> \<le> 2"
  proof -
    have "(1 :: rat) / 2 ^ 53 \<le> 1" by simp
    then show ?thesis using x(2) by linarith
  qed
  also have "(2 :: rat) < 2 ^ 1024" by simp
  finally have no_overflow: "\<not> 2 ^ 1024 \<le> v" by simp
  have sg: "sgn x = 1" using x by simp
  have "true_divide a b = (if 2 ^ 1024 \<le> v then Inl OverflowError else Inr (sgn x * v))"
    unfolding true_divide_def Let_def v_def e_def l_def d_def x_def
    using False assms(3) by simp
  then have "true_divide a b = Inr v"
    using no_overflow sg by simp
  then show ?thesis using near ax by (simp add: x_def)
qed

lemma length_combinations_with_replacement2:
  "length (combinations_with_replacement2 xs) = (length xs + 1) choose 2"
proof (induction xs)
  case Nil
  then show ?case by simp
next
  case (Cons x xs)
  have "Suc (Suc (length xs)) choose Suc (Suc 0)
        = (Suc (length xs) choose Suc 0) + (Suc (length xs) choose Suc (Suc 0))"
    by (rule binomial_Suc_Suc)
  then show ?case using Cons.IH by (simp add: numeral_2_eq_2)
qed


lemma bit_length_4: "bit_length 4 = 3"
  by (simp add: bit_length.simps)

lemma bit_length_6: "bit_length 6 = 3"
  by (simp add: bit_length.simps)

lemma floor_two_thirds: "\<lfloor>(18014398509481984 :: rat) / 3\<rfloor> = 6004799503160661"
  by code_simp

lemma true_divide_4_6: "true_divide 4 6 = Inr (6004799503160661 / 2 ^ 53)"
  by (simp add: true_divide_def bit_length_4 bit_length_6 pow2_def round_half_even_def Let_def
      floor_two_thirds)

lemma example_group_value:
  "equal_order_probability (\<lambda>x. if x = 0 then 1 else 3) \<lparr>elements = [0, 1, 2 :: int]\<rparr>
   = Inr (6004799503160661 / 2 ^ 53)"
proof -
  have "Suc (Suc (Suc (Suc 0))) choose 2 = 6" by (simp add: choose_two)
  then show ?thesis
    by (simp add: equal_order_probability_def comb2_def Group_order_def true_divide_4_6)
qed

lemma example_group_pairs:
  "card (equal_order_pairs (\<lambda>x. if x = 0 then 1 else 3) [0, 1, 2 :: int]) = 4"
proof -
  have "distinct [0, 1, 2 :: int]" by simp
  from count_equal_order_pairs [OF this, of "\<lambda>x. if x = 0 then 1 else 3", symmetric]
  show ?thesis by simp
qed

text \<open>
  C9, as amended.  For a group whose iteration yields its elements once each and at
  least one element, \<^verbatim>\<open>equal_order_probability\<close> returns a float: Python's true
  division of the number of unordered pairs with repetition \<open>{x, y}\<close> of elements
  of equal order by the binomial coefficient of \<open>|G| + 1\<close> over 2.  The division
  does not fail, and the float is within \<open>2 ^ - 53\<close> of the exact quotient.
\<close>

theorem equal_order_probability_counts:
  assumes "distinct (elements G)" "elements G \<noteq> []"
  shows "equal_order_probability element_order G =
           true_divide (int (card (equal_order_pairs element_order (elements G))))
             (int ((Group_order G + 1) choose 2))
         \<and> (\<exists>v. equal_order_probability element_order G = Inr v
                \<and> \<bar>v - of_nat (card (equal_order_pairs element_order (elements G)))
                         / of_nat ((Group_order G + 1) choose 2)\<bar> \<le> 1 / 2 ^ 53)"
proof -
  let ?count = "card (equal_order_pairs element_order (elements G))"
  let ?comb = "(Group_order G + 1) choose 2"
  have count: "length (filter (\<lambda>pair. element_order (fst pair) = element_order (snd pair))
                  (combinations_with_replacement2 (elements G))) = ?count"
    by (rule count_equal_order_pairs [OF assms(1)])
  have eq: "equal_order_probability element_order G = true_divide (int ?count) (int ?comb)"
    by (simp add: equal_order_probability_def comb2_def Let_def count)
  have "?count \<le> length (combinations_with_replacement2 (elements G))"
    unfolding count [symmetric] by (rule length_filter_le)
  then have le: "int ?count \<le> int ?comb"
    by (simp add: length_combinations_with_replacement2 Group_order_def)
  have "2 \<le> Group_order G + 1" using assms(2) by (cases "elements G") (simp_all add: Group_order_def)
  then have pos: "0 < int ?comb" by simp
  obtain v where v: "true_divide (int ?count) (int ?comb) = Inr v"
    "\<bar>v - of_int (int ?count) / of_int (int ?comb)\<bar> \<le> 1 / 2 ^ 53"
    using true_divide_fraction [OF _ le pos] by auto
  have "\<bar>v - of_nat ?count / of_nat ?comb\<bar> \<le> 1 / 2 ^ 53" using v(2) by simp
  then show ?thesis using eq v(1) by simp
qed

theorem equal_order_probability_counts_witness:
  "distinct (elements \<lparr>elements = [0, 1, 2 :: int]\<rparr>)
   \<and> elements \<lparr>elements = [0, 1, 2 :: int]\<rparr> \<noteq> []
   \<and> equal_order_probability (\<lambda>x. if x = 0 then 1 else 3) \<lparr>elements = [0, 1, 2 :: int]\<rparr>
       = true_divide
           (int (card (equal_order_pairs (\<lambda>x. if x = 0 then 1 else 3)
                         (elements \<lparr>elements = [0, 1, 2 :: int]\<rparr>))))
           (int ((Group_order \<lparr>elements = [0, 1, 2 :: int]\<rparr> + 1) choose 2))
   \<and> equal_order_probability (\<lambda>x. if x = 0 then 1 else 3) \<lparr>elements = [0, 1, 2 :: int]\<rparr>
       = Inr (6004799503160661 / 2 ^ 53)
   \<and> card (equal_order_pairs (\<lambda>x. if x = 0 then 1 else 3) [0, 1, 2 :: int]) = 4"
proof -
  have d: "distinct (elements \<lparr>elements = [0, 1, 2 :: int]\<rparr>)" by simp
  have n: "elements \<lparr>elements = [0, 1, 2 :: int]\<rparr> \<noteq> []" by simp
  show ?thesis
    using equal_order_probability_counts [OF d n, of "\<lambda>x. if x = 0 then 1 else 3"]
      example_group_value example_group_pairs d n
    by blast
qed

text \<open>
  The claim as stated, with the exact quotient, fails: for three elements of orders
  1, 3 and 3, four of the six pairs have equal orders, and the float the code
  returns for \<open>4 / 6\<close> is not two thirds.
\<close>

theorem equal_order_probability_not_exact:
  "equal_order_probability (\<lambda>x. if x = 0 then 1 else 3) \<lparr>elements = [0, 1, 2 :: int]\<rparr>
     = Inr (6004799503160661 / 2 ^ 53)
   \<and> card (equal_order_pairs (\<lambda>x. if x = 0 then 1 else 3)
             (elements \<lparr>elements = [0, 1, 2 :: int]\<rparr>)) = 4
   \<and> (Group_order \<lparr>elements = [0, 1, 2 :: int]\<rparr> + 1) choose 2 = 6
   \<and> equal_order_probability (\<lambda>x. if x = 0 then 1 else 3) \<lparr>elements = [0, 1, 2 :: int]\<rparr>
     \<noteq> Inr (of_nat (card (equal_order_pairs (\<lambda>x. if x = 0 then 1 else 3)
                            (elements \<lparr>elements = [0, 1, 2 :: int]\<rparr>)))
            / of_nat ((Group_order \<lparr>elements = [0, 1, 2 :: int]\<rparr> + 1) choose 2))"
proof -
  have c: "(Group_order \<lparr>elements = [0, 1, 2 :: int]\<rparr> + 1) choose 2 = 6"
    by (simp add: Group_order_def choose_two)
  have p: "card (equal_order_pairs (\<lambda>x. if x = 0 then 1 else 3)
             (elements \<lparr>elements = [0, 1, 2 :: int]\<rparr>)) = 4"
    using example_group_pairs by simp
  have ne: "(6004799503160661 :: rat) / 2 ^ 53 \<noteq> of_nat 4 / of_nat 6" by simp
  show ?thesis
    unfolding c p using example_group_value ne by simp
qed

section \<open>Multiplicative inverses\<close>

lemma totient_card: "1 \<le> n \<Longrightarrow> totient n = Inr (int (card (totatives n)))"
proof -
  have "distinct (filter (\<lambda>k. coprime k n) [1 .. n])" by simp
  then have "card (set (filter (\<lambda>k. coprime k n) [1 .. n])) = length (filter (\<lambda>k. coprime k n) [1 .. n])"
    by (rule distinct_card)
  moreover have "set (filter (\<lambda>k. coprime k n) [1 .. n]) = totatives n"
    by (auto simp: totatives_def)
  ultimately show "1 \<le> n \<Longrightarrow> totient n = Inr (int (card (totatives n)))"
    by (simp add: totient_def)
qed

lemma finite_totatives: "finite (totatives n)"
proof -
  have "totatives n \<subseteq> {1 .. n}" by (auto simp: totatives_def)
  then show ?thesis by (rule finite_subset) simp
qed

lemma one_in_totatives: "1 \<le> n \<Longrightarrow> 1 \<in> totatives n"
  by (simp add: totatives_def)

lemma totatives_less:
  assumes "2 \<le> n" "k \<in> totatives n"
  shows "1 \<le> k" "k < n"
proof -
  show "1 \<le> k" using assms(2) by (simp add: totatives_def)
  have "k \<le> n" "coprime k n" using assms(2) by (simp_all add: totatives_def)
  moreover have "\<not> coprime n n" using assms(1) by simp
  ultimately show "k < n" by (cases "k = n") auto
qed

lemma mult_mod_in_totatives:
  assumes "2 \<le> n" "coprime a n" "k \<in> totatives n"
  shows "(a * k) mod n \<in> totatives n"
proof -
  have ck: "coprime k n" using assms(3) by (simp add: totatives_def)
  have cp: "coprime ((a * k) mod n) n"
    using assms(1,2) ck by simp
  have rng: "0 \<le> (a * k) mod n" "(a * k) mod n < n" using assms(1) by simp_all
  have "(a * k) mod n \<noteq> 0"
  proof
    assume "(a * k) mod n = 0"
    then have "coprime 0 n" using cp by simp
    then show False using assms(1) by simp
  qed
  then show ?thesis using cp rng by (simp add: totatives_def)
qed

lemma mult_mod_inj:
  assumes "2 \<le> n" "coprime a n"
  shows "inj_on (\<lambda>k. (a * k) mod n) (totatives n)"
proof (rule inj_onI)
  fix k l assume k: "k \<in> totatives n" and l: "l \<in> totatives n"
    and eq: "(a * k) mod n = (a * l) mod n"
  have "n dvd a * k - a * l" using eq by (simp add: mod_eq_dvd_iff)
  then have "n dvd (k - l) * a" by (simp add: algebra_simps)
  moreover have "coprime n a" using assms(2) by (simp add: coprime_commute)
  ultimately have "n dvd k - l" by (simp add: coprime_dvd_mult_left_iff)
  then have "k mod n = l mod n" by (simp add: mod_eq_dvd_iff)
  moreover have "k mod n = k" "l mod n = l"
    using totatives_less [OF assms(1) k] totatives_less [OF assms(1) l] by simp_all
  ultimately show "k = l" by simp
qed

lemma euler_theorem_int:
  assumes "2 \<le> n" "coprime a n"
  shows "a ^ card (totatives n) mod n = 1"
proof -
  let ?T = "totatives n"
  let ?g = "\<lambda>k. (a * k) mod n"
  let ?P = "\<Prod>k \<in> ?T. k"
  have inj: "inj_on ?g ?T" by (rule mult_mod_inj [OF assms])
  have sub: "?g ` ?T \<subseteq> ?T" using mult_mod_in_totatives [OF assms] by blast
  have img: "?g ` ?T = ?T" by (rule endo_inj_surj [OF finite_totatives sub inj])
  have "?P = (\<Prod>k \<in> ?g ` ?T. k)" using img by simp
  also have "\<dots> = (\<Prod>k \<in> ?T. (a * k) mod n)" by (simp add: prod.reindex [OF inj] comp_def)
  finally have "?P mod n = (\<Prod>k \<in> ?T. (a * k) mod n) mod n" by simp
  also have "\<dots> = (\<Prod>k \<in> ?T. a * k) mod n" by (rule mod_prod_eq)
  also have "(\<Prod>k \<in> ?T. a * k) = a ^ card ?T * ?P" by (simp add: prod.distrib)
  finally have "n dvd ?P - a ^ card ?T * ?P" by (simp add: mod_eq_dvd_iff)
  then have "n dvd (1 - a ^ card ?T) * ?P" by (simp add: algebra_simps)
  moreover have "coprime n ?P"
  proof -
    have "coprime ?P n" by (rule prod_coprime_left) (simp add: totatives_def)
    then show ?thesis by (simp add: coprime_commute)
  qed
  ultimately have "n dvd 1 - a ^ card ?T" by (simp add: coprime_dvd_mult_left_iff)
  then have "1 mod n = a ^ card ?T mod n" by (simp add: mod_eq_dvd_iff)
  then show ?thesis using assms(1) by simp
qed

lemma MultiplicativeResidueClass_init_cases:
  assumes "n \<noteq> 0" "MultiplicativeResidueClass_init r n = Inr x"
  shows "\<exists>k. round_to_double (n div gcd (r mod n) n) = Inr k
             \<and> x = \<lparr>modulus = n, residue = r mod n, order = Some k\<rparr>"
proof -
  have g: "gcd (r mod n) n \<noteq> 0" using assms(1) by simp
  show ?thesis
    using assms g
    by (auto simp: MultiplicativeResidueClass_init_def ResidueClass_init_with_def py_mod_def
        MultiplicativeResidueClass_get_order_def int_truediv_def split: sum.splits)
qed

lemma MultiplicativeResidueClass_init_unit:
  assumes "n \<noteq> 0" "coprime (r mod n) n" "round_to_double n = Inr k"
  shows "MultiplicativeResidueClass_init r n = Inr \<lparr>modulus = n, residue = r mod n, order = Some k\<rparr>"
proof -
  have "gcd (r mod n) n = 1" using assms(2) by (simp add: coprime_iff_gcd_eq_1)
  then show ?thesis
    using assms(1,3)
    by (simp add: MultiplicativeResidueClass_init_def ResidueClass_init_with_def py_mod_def
        MultiplicativeResidueClass_get_order_def int_truediv_def)
qed

lemma inverse_of_unit:
  assumes "2 \<le> n" "MultiplicativeResidueClass_init r n = Inr x" "gcd (residue x) n = 1"
  shows "\<exists>t y z. totient n = Inr t
           \<and> MultiplicativeResidueClass_invert x = Inr y
           \<and> residue y = residue x ^ nat (t - 1) mod n \<and> modulus y = n
           \<and> MultiplicativeResidueClass_mul x y = Inr z
           \<and> MultiplicativeResidueClass_is_identity z \<and> residue z = 1"
proof -
  let ?a = "r mod n"
  let ?phi = "card (totatives n)"
  have n0: "n \<noteq> 0" using assms(1) by simp
  obtain k where k: "round_to_double (n div gcd ?a n) = Inr k"
    and x: "x = \<lparr>modulus = n, residue = ?a, order = Some k\<rparr>"
    using MultiplicativeResidueClass_init_cases [OF n0 assms(2)] by blast
  have g: "gcd ?a n = 1" using assms(3) x by simp
  then have cop: "coprime ?a n" by (simp add: coprime_iff_gcd_eq_1)
  have rd: "round_to_double n = Inr k" using k g by simp
  have tot: "totient n = Inr (int ?phi)" using totient_card [of n] assms(1) by simp
  have "?phi \<noteq> 0"
    using one_in_totatives [of n] assms(1) finite_totatives [of n] by (auto simp: card_eq_0_iff)
  then have phi: "Suc (nat (int ?phi - 1)) = ?phi" by simp
  let ?b = "?a ^ nat (int ?phi - 1) mod n"
  have copb: "coprime (?a ^ nat (int ?phi - 1) mod n) n"
    using cop n0 by (simp add: coprime_mod_left_iff)
  let ?y = "\<lparr>modulus = n, residue = ?b, order = Some k\<rparr>"
  have inv: "MultiplicativeResidueClass_invert x = Inr ?y"
    using MultiplicativeResidueClass_init_unit [OF n0 copb rd] g
    by (simp add: MultiplicativeResidueClass_invert_def x tot)
  have "(?a * ?b) mod n = (?a * ?a ^ nat (int ?phi - 1)) mod n"
    by (simp add: mod_mult_right_eq)
  also have "?a * ?a ^ nat (int ?phi - 1) = ?a ^ Suc (nat (int ?phi - 1))" by simp
  also have "\<dots> = ?a ^ ?phi" unfolding phi ..
  also have "?a ^ ?phi mod n = 1" by (rule euler_theorem_int [OF assms(1) cop])
  finally have prod: "(?a * ?b) mod n = 1" .
  have one: "1 mod n = 1" using assms(1) by simp
  have cop1: "coprime (((?a * ?b) mod n) mod n) n" using prod one by simp
  let ?z = "\<lparr>modulus = n, residue = 1, order = Some k\<rparr>"
  have "MultiplicativeResidueClass_init ((?a * ?b) mod n) n
        = Inr \<lparr>modulus = n, residue = ((?a * ?b) mod n) mod n, order = Some k\<rparr>"
    by (rule MultiplicativeResidueClass_init_unit [OF n0 cop1 rd])
  then have "MultiplicativeResidueClass_init ((?a * ?b) mod n) n = Inr ?z"
    using prod one by simp
  then have mul: "MultiplicativeResidueClass_mul x ?y = Inr ?z"
    using n0 by (simp add: MultiplicativeResidueClass_mul_def x py_mod_def)
  have "MultiplicativeResidueClass_is_identity ?z"
    by (simp add: MultiplicativeResidueClass_is_identity_def)
  then show ?thesis
    using tot inv mul x by (intro exI [of _ "int ?phi"] exI [of _ ?y] exI [of _ ?z]) simp
qed

lemmas residue_eval =
  MultiplicativeResidueClass_init_def ResidueClass_init_with_def py_mod_def
  MultiplicativeResidueClass_get_order_def int_truediv_def round_to_double_small
  MultiplicativeResidueClass_invert_def MultiplicativeResidueClass_mul_def
  MultiplicativeResidueClass_is_identity_def

lemma totient_7: "totient 7 = Inr 6"
  by code_simp

lemma totient_15: "totient 15 = Inr 8"
  by code_simp

lemma totient_1: "totient 1 = Inr 1"
  by code_simp

lemma gcd_6_15: "gcd (6 :: int) 15 = 3"
  by code_simp

lemma gcd_2_15: "gcd (2 :: int) 15 = 1"
  by code_simp

lemma gcd_3_7: "gcd (3 :: int) 7 = 1"
  by code_simp

lemma gcd_5_7: "gcd (5 :: int) 7 = 1"
  by code_simp

lemma example_3_mod_7:
  "MultiplicativeResidueClass_init 3 7 = Inr \<lparr>modulus = 7, residue = 3, order = Some 7\<rparr>
   \<and> MultiplicativeResidueClass_invert \<lparr>modulus = 7, residue = 3, order = Some 7\<rparr>
       = Inr \<lparr>modulus = 7, residue = 5, order = Some 7\<rparr>"
  by (simp add: residue_eval totient_7 gcd_3_7 gcd_5_7)

text \<open>
  C6, as amended.  For a multiplicative residue class \<open>x\<close> that the constructor
  returned for a modulus \<open>n \<ge> 2\<close>: inversion fails with \<open>NotInvertible\<close> exactly
  when the residue and \<open>n\<close> are not coprime; when they are coprime, the inverse is
  returned, its residue is the residue of \<open>x\<close> to the power \<open>\<phi>(n) - 1\<close> modulo
  \<open>n\<close>, and the product of \<open>x\<close> with its inverse is returned, has residue 1 and
  is the identity.  For \<open>n = 7\<close> and the residue 3 the inverse has residue 5.
\<close>

theorem multiplicative_inverse:
  assumes "2 \<le> n" "MultiplicativeResidueClass_init r n = Inr x"
  shows "(MultiplicativeResidueClass_invert x = Inl NotInvertible \<longleftrightarrow> gcd (residue x) n \<noteq> 1)
       \<and> (gcd (residue x) n = 1 \<longrightarrow>
            (\<exists>t y z. totient n = Inr t
               \<and> MultiplicativeResidueClass_invert x = Inr y
               \<and> residue y = residue x ^ nat (t - 1) mod n \<and> modulus y = n
               \<and> MultiplicativeResidueClass_mul x y = Inr z
               \<and> MultiplicativeResidueClass_is_identity z \<and> residue z = 1))
       \<and> MultiplicativeResidueClass_init 3 7 = Inr \<lparr>modulus = 7, residue = 3, order = Some 7\<rparr>
       \<and> MultiplicativeResidueClass_invert \<lparr>modulus = 7, residue = 3, order = Some 7\<rparr>
           = Inr \<lparr>modulus = 7, residue = 5, order = Some 7\<rparr>"
proof -
  have m: "modulus x = n"
    using MultiplicativeResidueClass_init_cases [OF _ assms(2)] assms(1) by auto
  have unit: "gcd (residue x) n = 1 \<longrightarrow>
            (\<exists>t y z. totient n = Inr t
               \<and> MultiplicativeResidueClass_invert x = Inr y
               \<and> residue y = residue x ^ nat (t - 1) mod n \<and> modulus y = n
               \<and> MultiplicativeResidueClass_mul x y = Inr z
               \<and> MultiplicativeResidueClass_is_identity z \<and> residue z = 1)"
    using inverse_of_unit [OF assms] by blast
  have "MultiplicativeResidueClass_invert x = Inl NotInvertible \<longleftrightarrow> gcd (residue x) n \<noteq> 1"
  proof
    assume e: "MultiplicativeResidueClass_invert x = Inl NotInvertible"
    show "gcd (residue x) n \<noteq> 1"
    proof
      assume "gcd (residue x) n = 1"
      then obtain y where "MultiplicativeResidueClass_invert x = Inr y" using unit by auto
      then show False using e by simp
    qed
  next
    assume "gcd (residue x) n \<noteq> 1"
    then show "MultiplicativeResidueClass_invert x = Inl NotInvertible"
      by (simp add: MultiplicativeResidueClass_invert_def m)
  qed
  then show ?thesis using unit example_3_mod_7 by blast
qed

theorem multiplicative_inverse_witness:
  "(2 :: int) \<le> 15
   \<and> MultiplicativeResidueClass_init 2 15 = Inr \<lparr>modulus = 15, residue = 2, order = Some 15\<rparr>
   \<and> gcd (2 :: int) 15 = 1
   \<and> MultiplicativeResidueClass_invert \<lparr>modulus = 15, residue = 2, order = Some 15\<rparr>
       \<noteq> Inl NotInvertible
   \<and> (\<exists>t y z. totient 15 = Inr t
         \<and> MultiplicativeResidueClass_invert \<lparr>modulus = 15, residue = 2, order = Some 15\<rparr> = Inr y
         \<and> residue y = 2 ^ nat (t - 1) mod 15 \<and> modulus y = 15
         \<and> MultiplicativeResidueClass_mul \<lparr>modulus = 15, residue = 2, order = Some 15\<rparr> y = Inr z
         \<and> MultiplicativeResidueClass_is_identity z \<and> residue z = 1)
   \<and> MultiplicativeResidueClass_init 6 15 = Inr \<lparr>modulus = 15, residue = 6, order = Some 5\<rparr>
   \<and> gcd (6 :: int) 15 \<noteq> 1
   \<and> MultiplicativeResidueClass_invert \<lparr>modulus = 15, residue = 6, order = Some 5\<rparr>
       = Inl NotInvertible"
proof -
  have n: "(2 :: int) \<le> 15" by simp
  have i2: "MultiplicativeResidueClass_init 2 15 = Inr \<lparr>modulus = 15, residue = 2, order = Some 15\<rparr>"
    by (simp add: residue_eval gcd_2_15)
  have i6: "MultiplicativeResidueClass_init 6 15 = Inr \<lparr>modulus = 15, residue = 6, order = Some 5\<rparr>"
    by (simp add: residue_eval gcd_6_15)
  have g2: "gcd (2 :: int) 15 = 1" by (rule gcd_2_15)
  have g6: "gcd (6 :: int) 15 \<noteq> 1" by (simp add: gcd_6_15)
  show ?thesis
    using multiplicative_inverse [OF n i2] multiplicative_inverse [OF n i6] n i2 i6 g2 g6
    by simp
qed

text \<open>
  The claim as stated, for every modulus, fails at \<open>n = 1\<close>: the only residue is 0,
  it is coprime to 1, its inverse and the product with its inverse are again the
  residue 0, which is not 1, and \<^verbatim>\<open>is_identity\<close> does not hold for it.
\<close>

theorem trivial_modulus_product_not_identity:
  "MultiplicativeResidueClass_init 0 1 = Inr \<lparr>modulus = 1, residue = 0, order = Some 1\<rparr>
   \<and> gcd (residue \<lparr>modulus = 1, residue = 0, order = Some 1\<rparr>) 1 = 1
   \<and> MultiplicativeResidueClass_invert \<lparr>modulus = 1, residue = 0, order = Some 1\<rparr>
       = Inr \<lparr>modulus = 1, residue = 0, order = Some 1\<rparr>
   \<and> MultiplicativeResidueClass_mul \<lparr>modulus = 1, residue = 0, order = Some 1\<rparr>
         \<lparr>modulus = 1, residue = 0, order = Some 1\<rparr>
       = Inr \<lparr>modulus = 1, residue = 0, order = Some 1\<rparr>
   \<and> \<not> MultiplicativeResidueClass_is_identity \<lparr>modulus = 1, residue = 0, order = Some 1\<rparr>
   \<and> residue \<lparr>modulus = 1, residue = 0, order = Some 1\<rparr> \<noteq> 1"
  by (simp add: residue_eval totient_1)

end
